theory Spec2Isabelle
  imports Main
begin

section \<open>JSON values and their serialisation\<close>

text \<open>
  The snapshot of an instance (\<^verbatim>\<open>this.info\<close>) is the decoded JSON body of a
  remote call. An object is an association list in the enumeration order of its keys,
  which is the order \<^verbatim>\<open>JSON.stringify\<close> prints them in; the keys of a JavaScript
  object are distinct. Numbers are integers; fractional and exponent forms are not
  modelled.
\<close>

datatype json =
    JNull
  | JBool bool
  | JNum int
  | JStr string
  | JArr "json list"
  | JObj "(string \<times> json) list"

definition hex_digit :: "nat \<Rightarrow> char" where
  "hex_digit n = ''0123456789abcdef'' ! n"

text \<open>The escapes \<^verbatim>\<open>JSON.stringify\<close> applies inside a string literal.\<close>

definition escape :: "char \<Rightarrow> string" where
  "escape c =
     (if c = CHR 0x22 then [CHR 0x5C, CHR 0x22]
      else if c = CHR 0x5C then [CHR 0x5C, CHR 0x5C]
      else if c = CHR 0x08 then [CHR 0x5C, CHR ''b'']
      else if c = CHR 0x0C then [CHR 0x5C, CHR ''f'']
      else if c = CHR 0x0A then [CHR 0x5C, CHR ''n'']
      else if c = CHR 0x0D then [CHR 0x5C, CHR ''r'']
      else if c = CHR 0x09 then [CHR 0x5C, CHR ''t'']
      else if (of_char c :: nat) < 32
        then [CHR 0x5C, CHR ''u'', CHR ''0'', CHR ''0'',
              hex_digit ((of_char c :: nat) div 16), hex_digit ((of_char c :: nat) mod 16)]
      else [c])"

definition quote :: "string \<Rightarrow> string" where
  "quote s = CHR 0x22 # concat (map escape s) @ [CHR 0x22]"

fun digits :: "nat \<Rightarrow> string" where
  "digits n = (if n < 10 then [hex_digit n] else digits (n div 10) @ [hex_digit (n mod 10)])"

declare digits.simps [simp del]

definition number :: "int \<Rightarrow> string" where
  "number i = (if i < 0 then CHR ''-'' # digits (nat (- i)) else digits (nat i))"

fun join :: "string \<Rightarrow> string list \<Rightarrow> string" where
  "join sep [] = []"
| "join sep [x] = x"
| "join sep (x # y # ys) = x @ sep @ join sep (y # ys)"

fun stringify :: "json \<Rightarrow> string" where
  "stringify JNull = ''null''"
| "stringify (JBool b) = (if b then ''true'' else ''false'')"
| "stringify (JNum i) = number i"
| "stringify (JStr s) = quote s"
| "stringify (JArr xs) = ''['' @ join '','' (map stringify xs) @ '']''"
| "stringify (JObj kvs) =
     ''{'' @ join '','' (map (\<lambda>(k, v). quote k @ '':'' @ stringify v) kvs) @ ''}''"

text \<open>
  Structural equality as the specification words it: recursive over nested structures
  and independent of the order of the keys of an object (two objects are equal when
  they have the same keys and equal values under each key). This definition follows the
  specification, not the source; the source compares serialisations.
\<close>

fun struct_eq :: "json \<Rightarrow> json \<Rightarrow> bool" where
  "struct_eq (JArr xs) (JArr ys) = list_all2 struct_eq xs ys"
| "struct_eq (JObj xs) (JObj ys) =
     (set (map fst xs) = set (map fst ys) \<and>
      list_all (\<lambda>x. list_all (\<lambda>y. if fst x = fst y then struct_eq (snd x) (snd y) else True) ys) xs)"
| "struct_eq a b = (a = b)"

section \<open>JavaScript values\<close>

datatype error = TypeError | RemoteFailure

text \<open>
  A JavaScript value is a JSON value or \<^verbatim>\<open>undefined\<close> (\<open>None\<close>). Reading a
  property of \<^verbatim>\<open>null\<close> or \<^verbatim>\<open>undefined\<close> throws; reading one of the names
  the source uses (none of them a built-in property) from a boolean, number, string or
  array gives \<^verbatim>\<open>undefined\<close>.
\<close>

fun property :: "json option \<Rightarrow> string \<Rightarrow> error + json option" where
  "property None k = Inl TypeError"
| "property (Some JNull) k = Inl TypeError"
| "property (Some (JObj kvs)) k = Inr (map_of kvs k)"
| "property (Some _) k = Inr None"

fun truthy :: "json option \<Rightarrow> bool" where
  "truthy None = False"
| "truthy (Some JNull) = False"
| "truthy (Some (JBool b)) = b"
| "truthy (Some (JNum i)) = (i \<noteq> 0)"
| "truthy (Some (JStr s)) = (s \<noteq> [])"
| "truthy (Some (JArr _)) = True"
| "truthy (Some (JObj _)) = True"

text \<open>The string a value becomes when it is concatenated to a string.\<close>

fun toString :: "json \<Rightarrow> string" where
  "toString JNull = ''null''"
| "toString (JBool b) = (if b then ''true'' else ''false'')"
| "toString (JNum i) = number i"
| "toString (JStr s) = s"
| "toString (JArr xs) = join '','' (map (\<lambda>x. if x = JNull then [] else toString x) xs)"
| "toString (JObj kvs) = ''[object Object]''"

definition template :: "json option \<Rightarrow> string" where
  "template v = (case v of None \<Rightarrow> ''undefined'' | Some j \<Rightarrow> toString j)"

section \<open>The instance handle\<close>

datatype signal = Change | Panic

datatype kind = HypervisorStream | Agent

datatype options = Default | Method string | MethodJson string json

text \<open>
  Modelled from the spec: the channel classes (\<^verbatim>\<open>c3po.HypervisorStream\<close>,
  \<^verbatim>\<open>Agent\<close>) are defined outside \<^verbatim>\<open>instance.js\<close>. A channel exposes a
  liveness flag, its recorded endpoint and a disconnect operation; a newly constructed
  channel is live. The number \<open>cid\<close> is the identity of the channel object.
\<close>

record channel =
  cid :: nat
  endpoint :: string
  active :: bool

text \<open>
  \<^verbatim>\<open>_waitFor\<close> creates one closure \<^verbatim>\<open>change\<close> per call. A waiter is that
  closure: its identity, the callback it evaluates (a function of the cached snapshot
  that returns a value or throws) and what the awaiting code does once it is resolved.
\<close>

datatype purpose = Plain | Channel kind

record waiter =
  wid :: nat
  callback :: "json \<Rightarrow> error + json option"
  purpose :: purpose

text \<open>
  A listener of \<^verbatim>\<open>change\<close> is the closure of a waiter or a function registered by
  the user of the handle, known by a number. Such a function is taken to return
  normally and not to touch the handle.
\<close>

datatype listener = Waiter waiter | Observer nat

text \<open>
  What the handle does that is visible from outside, in order: a call of
  \<^verbatim>\<open>fetchApi\<close> with its path and options, an emitted event, a user's listener being
  called, \<^verbatim>\<open>resolve\<close> of a waiter, \<^verbatim>\<open>disconnect\<close> of a channel, the
  construction of a channel, and what a call of \<^verbatim>\<open>hypervisor\<close> or
  \<^verbatim>\<open>agent\<close> returns or throws to the code that awaits it.
\<close>

datatype action =
    Request string options
  | Emit signal
  | Notified nat signal
  | Resolved nat
  | Disconnect nat
  | Construct kind nat string
  | Returned nat nat
  | Threw nat error

text \<open>
  The polling loop of \<^verbatim>\<open>manageUpdates\<close> is an asynchronous task. Between two
  events it is at one of its suspension points: queued by \<^verbatim>\<open>process.nextTick\<close>,
  awaiting the fetch of \<^verbatim>\<open>update\<close>, or awaiting \<^verbatim>\<open>sleep(1000)\<close>; or it has
  left the loop, or died of an exception.
\<close>

datatype phase = Scheduled | Fetching | Sleeping | Stopped | Crashed

record handle =
  api :: string
  info :: json
  ident :: "json option"
  updating :: bool
  hypervisorStream :: "channel option"
  agentStream :: "channel option"
  listeners :: "listener list"
  panicObservers :: "nat list"
  tasks :: "phase list"
  microtasks :: "waiter list"
  nextWaiter :: nat
  nextChannel :: nat
  trace :: "action list"

text \<open>
  The fields \<open>api\<close> (\<^verbatim>\<open>this.project.api\<close>), \<open>info\<close>, \<open>ident\<close>
  (\<^verbatim>\<open>this.id\<close>), \<open>updating\<close>, \<open>hypervisorStream\<close> and \<open>agentStream\<close> are those
  of the class. The others are the state the runtime keeps for it: the listeners of
  \<^verbatim>\<open>change\<close> and of \<^verbatim>\<open>panic\<close> in the order of their registration, the polling
  tasks in the order they were queued, the resolved waiters whose awaiting code has not
  resumed yet, the next unused identities, and the actions so far.
\<close>

text \<open>
  The constructor. \<^verbatim>\<open>this.id = info.id\<close> throws on a null snapshot. The
  \<^verbatim>\<open>newListener\<close> hook it installs is part of \<open>on\<close> below. The fields
  \<^verbatim>\<open>hash\<close>, \<^verbatim>\<open>lastPanicLength\<close> and \<^verbatim>\<open>volumeId\<close> are never read.
\<close>

definition Instance :: "string \<Rightarrow> json \<Rightarrow> error + handle" where
  "Instance project_api i =
     (case property (Some i) ''id'' of
        Inl e \<Rightarrow> Inl e
      | Inr v \<Rightarrow> Inr \<lparr>api = project_api, info = i, ident = v, updating = False,
                      hypervisorStream = None, agentStream = None, listeners = [],
                      panicObservers = [], tasks = [], microtasks = [],
                      nextWaiter = 0, nextChannel = 0, trace = []\<rparr>)"

definition name :: "handle \<Rightarrow> error + json option" where
  "name s = property (Some (info s)) ''name''"

definition state :: "handle \<Rightarrow> error + json option" where
  "state s = property (Some (info s)) ''state''"

definition flavor :: "handle \<Rightarrow> error + json option" where
  "flavor s = property (Some (info s)) ''flavor''"

subsection \<open>Remote calls\<close>

text \<open>
  \<^verbatim>\<open>_fetch\<close> issues the request when it is called; its outcome \<open>r\<close> (the decoded
  body, or the failure it raises) is chosen by the remote side.
\<close>

definition request :: "string \<Rightarrow> options \<Rightarrow> handle \<Rightarrow> handle" where
  "request ep opts s =
     s\<lparr>trace := trace s @ [Request (''/instances/'' @ template (ident s) @ ep) opts]\<rparr>"

definition fetch :: "string \<Rightarrow> options \<Rightarrow> error + json \<Rightarrow> handle \<Rightarrow> (error + json) \<times> handle" where
  "fetch ep opts r s = (r, request ep opts s)"

definition command :: "(error + json) \<times> handle \<Rightarrow> (error + unit) \<times> handle" where
  "command p = (case p of (Inl e, s) \<Rightarrow> (Inl e, s) | (Inr _, s) \<Rightarrow> (Inr (), s))"

definition rename :: "json \<Rightarrow> error + json \<Rightarrow> handle \<Rightarrow> (error + unit) \<times> handle" where
  "rename n r s = command (fetch [] (MethodJson ''PATCH'' (JObj [(''name'', n)])) r s)"

definition start :: "error + json \<Rightarrow> handle \<Rightarrow> (error + unit) \<times> handle" where
  "start r s = command (fetch ''/start'' (Method ''POST'') r s)"

definition stop :: "error + json \<Rightarrow> handle \<Rightarrow> (error + unit) \<times> handle" where
  "stop r s = command (fetch ''/stop'' (Method ''POST'') r s)"

definition reboot :: "error + json \<Rightarrow> handle \<Rightarrow> (error + unit) \<times> handle" where
  "reboot r s = command (fetch ''/reboot'' (Method ''POST'') r s)"

definition destroy :: "error + json \<Rightarrow> handle \<Rightarrow> (error + unit) \<times> handle" where
  "destroy r s = command (fetch [] (Method ''DELETE'') r s)"

text \<open>
  Modelled from the spec: \<^verbatim>\<open>pause\<close> is not in \<^verbatim>\<open>instance.js\<close>. The
  specification lists \<^verbatim>\<open>pause\<close> and \<^verbatim>\<open>unpause\<close> with the other commands as
  fire-and-forget remote calls that do not update the cached snapshot.
\<close>

definition pause :: "error + json \<Rightarrow> handle \<Rightarrow> (error + unit) \<times> handle" where
  "pause r s = command (fetch ''/pause'' (Method ''POST'') r s)"

text \<open>
  Modelled from the spec: \<^verbatim>\<open>unpause\<close>, the counterpart of \<^verbatim>\<open>pause\<close>, is not
  in \<^verbatim>\<open>instance.js\<close> either.
\<close>

definition unpause :: "error + json \<Rightarrow> handle \<Rightarrow> (error + unit) \<times> handle" where
  "unpause r s = command (fetch ''/unpause'' (Method ''POST'') r s)"

subsection \<open>Listeners and waiters\<close>

text \<open>
  \<^verbatim>\<open>
  manageUpdates() {
      if (this.updating)
          return;
      process.nextTick(async () => {
          this.updating = true;
          do {
              await this.update();
              await sleep(1000);
          } while (this.listenerCount('change') != 0);
          this.updating = false;
      });
  }
  \<close>
  The flag is read when \<^verbatim>\<open>manageUpdates\<close> is called; it is set only when the
  queued callback starts to run (\<open>task_begin\<close> below).
\<close>

definition manageUpdates :: "handle \<Rightarrow> handle" where
  "manageUpdates s = (if updating s then s else s\<lparr>tasks := tasks s @ [Scheduled]\<rparr>)"

text \<open>
  \<^verbatim>\<open>on\<close> of the event emitter: the \<^verbatim>\<open>newListener\<close> hook runs before the
  listener is appended, for whichever event the listener is for.
\<close>

definition on :: "listener \<Rightarrow> handle \<Rightarrow> handle" where
  "on l s = (let s1 = manageUpdates s in s1\<lparr>listeners := listeners s1 @ [l]\<rparr>)"

definition on_panic :: "nat \<Rightarrow> handle \<Rightarrow> handle" where
  "on_panic i s = (let s1 = manageUpdates s in s1\<lparr>panicObservers := panicObservers s1 @ [i]\<rparr>)"

definition listenerCount :: "handle \<Rightarrow> nat" where
  "listenerCount s = length (listeners s)"

fun same_listener :: "listener \<Rightarrow> listener \<Rightarrow> bool" where
  "same_listener (Waiter w) (Waiter v) = (wid w = wid v)"
| "same_listener (Observer i) (Observer j) = (i = j)"
| "same_listener _ _ = False"

text \<open>\<^verbatim>\<open>removeListener\<close> removes the most recently added occurrence.\<close>

fun drop_last :: "('a \<Rightarrow> bool) \<Rightarrow> 'a list \<Rightarrow> 'a list" where
  "drop_last p [] = []"
| "drop_last p (x # xs) = (if p x \<and> \<not> list_ex p xs then xs else x # drop_last p xs)"

definition removeListener :: "listener \<Rightarrow> handle \<Rightarrow> handle" where
  "removeListener l s = s\<lparr>listeners := drop_last (same_listener l) (listeners s)\<rparr>"

definition resolve :: "waiter \<Rightarrow> handle \<Rightarrow> handle" where
  "resolve w s = s\<lparr>microtasks := microtasks s @ [w], trace := trace s @ [Resolved (wid w)]\<rparr>"

text \<open>
  \<^verbatim>\<open>
  async _waitFor(callback) {
      return new Promise(resolve => {
          const change = () => {
              let done;
              try {
                  done = callback();
              } catch (e) {
                  done = false;
              }
              if (done) {
                  this.removeListener('change', change);
                  resolve();
              }
          };
          this.on('change', change);
          change();
      });
  }
  \<close>
  The closure \<^verbatim>\<open>change\<close> first, then the call itself, which gives the closure a
  new identity. The callbacks of \<^verbatim>\<open>waitForState\<close> and \<^verbatim>\<open>finishRestore\<close>
  compare \<^verbatim>\<open>this.info.state\<close> with a string by \<^verbatim>\<open>===\<close> and \<^verbatim>\<open>!==\<close>.
\<close>

definition change :: "waiter \<Rightarrow> handle \<Rightarrow> handle" where
  "change w s =
     (let done = (case callback w (info s) of Inl e \<Rightarrow> False | Inr v \<Rightarrow> truthy v)
      in if done then resolve w (removeListener (Waiter w) s) else s)"

definition waitFor :: "(json \<Rightarrow> error + json option) \<Rightarrow> purpose \<Rightarrow> handle \<Rightarrow> nat \<times> handle" where
  "waitFor cb p s =
     (let w = \<lparr>wid = nextWaiter s, callback = cb, purpose = p\<rparr>;
          s1 = on (Waiter w) (s\<lparr>nextWaiter := Suc (nextWaiter s)\<rparr>)
      in (wid w, change w s1))"

definition state_is :: "string \<Rightarrow> json \<Rightarrow> error + json option" where
  "state_is t i =
     (case property (Some i) ''state'' of
        Inl e \<Rightarrow> Inl e
      | Inr v \<Rightarrow> Inr (Some (JBool (v = Some (JStr t)))))"

definition state_is_not :: "string \<Rightarrow> json \<Rightarrow> error + json option" where
  "state_is_not t i =
     (case property (Some i) ''state'' of
        Inl e \<Rightarrow> Inl e
      | Inr v \<Rightarrow> Inr (Some (JBool (v \<noteq> Some (JStr t)))))"

definition waitForState :: "string \<Rightarrow> handle \<Rightarrow> nat \<times> handle" where
  "waitForState t s = waitFor (state_is t) Plain s"

definition finishRestore :: "handle \<Rightarrow> nat \<times> handle" where
  "finishRestore s = waitFor (state_is_not ''creating'') Plain s"

subsection \<open>Refreshing the snapshot\<close>

fun invoke :: "listener \<Rightarrow> handle \<Rightarrow> handle" where
  "invoke (Waiter w) s = change w s"
| "invoke (Observer i) s = s\<lparr>trace := trace s @ [Notified i Change]\<rparr>"

text \<open>\<^verbatim>\<open>emit\<close> calls the listeners registered when it starts, in order.\<close>

definition emit_change :: "handle \<Rightarrow> handle" where
  "emit_change s = fold invoke (listeners s) (s\<lparr>trace := trace s @ [Emit Change]\<rparr>)"

definition emit_panic :: "handle \<Rightarrow> handle" where
  "emit_panic s =
     s\<lparr>trace := trace s @ Emit Panic # map (\<lambda>i. Notified i Panic) (panicObservers s)\<rparr>"

text \<open>
  \<^verbatim>\<open>
  async update() {
      const info = await this._fetch('');
      // one way of checking object equality
      if (JSON.stringify(info) != JSON.stringify(this.info)) {
          this.info = info;
          this.emit('change');
          if (info.panicked)
              this.emit('panic');
      }
  }
  \<close>
  \<open>update_resume\<close> is the part after the \<^verbatim>\<open>await\<close>, where \<open>r\<close> is the outcome
  of the fetch; it reads \<^verbatim>\<open>this.info\<close> as it is at that moment. Reading
  \<^verbatim>\<open>info.panicked\<close> throws when the fetched snapshot is null.
\<close>

definition update_resume :: "error + json \<Rightarrow> handle \<Rightarrow> (error + unit) \<times> handle" where
  "update_resume r s =
     (case r of
        Inl e \<Rightarrow> (Inl e, s)
      | Inr fetched \<Rightarrow>
          if stringify fetched \<noteq> stringify (info s) then
            (let s1 = emit_change (s\<lparr>info := fetched\<rparr>)
             in case property (Some fetched) ''panicked'' of
                  Inl e \<Rightarrow> (Inl e, s1)
                | Inr p \<Rightarrow> if truthy p then (Inr (), emit_panic s1) else (Inr (), s1))
          else (Inr (), s))"

definition update :: "error + json \<Rightarrow> handle \<Rightarrow> (error + unit) \<times> handle" where
  "update r s = update_resume r (request [] Default s)"

subsection \<open>The polling task\<close>

text \<open>
  The three places where the callback queued by \<^verbatim>\<open>manageUpdates\<close> runs. It
  begins: it sets the flag and calls \<^verbatim>\<open>update\<close>, which issues the fetch. The
  fetch returns: \<^verbatim>\<open>update\<close> resumes, and the task goes to sleep, or dies when
  \<^verbatim>\<open>update\<close> throws, leaving the flag set. The sleep ends: the task tests the
  number of listeners of \<^verbatim>\<open>change\<close>, and either calls \<^verbatim>\<open>update\<close> again or
  clears the flag and ends. An event for a task that is not at that place does nothing.
\<close>

definition task_begin :: "nat \<Rightarrow> handle \<Rightarrow> handle" where
  "task_begin i s =
     (if i < length (tasks s) \<and> tasks s ! i = Scheduled
      then request [] Default (s\<lparr>updating := True, tasks := (tasks s)[i := Fetching]\<rparr>)
      else s)"

definition task_fetched :: "nat \<Rightarrow> error + json \<Rightarrow> handle \<Rightarrow> handle" where
  "task_fetched i r s =
     (if i < length (tasks s) \<and> tasks s ! i = Fetching
      then (case update_resume r s of
              (Inl e, s1) \<Rightarrow> s1\<lparr>tasks := (tasks s1)[i := Crashed]\<rparr>
            | (Inr u, s1) \<Rightarrow> s1\<lparr>tasks := (tasks s1)[i := Sleeping]\<rparr>)
      else s)"

definition task_slept :: "nat \<Rightarrow> handle \<Rightarrow> handle" where
  "task_slept i s =
     (if i < length (tasks s) \<and> tasks s ! i = Sleeping
      then (if listenerCount s \<noteq> 0
            then request [] Default (s\<lparr>tasks := (tasks s)[i := Fetching]\<rparr>)
            else s\<lparr>updating := False, tasks := (tasks s)[i := Stopped]\<rparr>)
      else s)"

subsection \<open>The two channels\<close>

text \<open>
  Modelled from the spec: \<^verbatim>\<open>disconnect\<close> belongs to the channel classes, which
  are defined outside \<^verbatim>\<open>instance.js\<close>. Here it is the call that is recorded.
\<close>

definition disconnect :: "channel \<Rightarrow> handle \<Rightarrow> handle" where
  "disconnect c s = s\<lparr>trace := trace s @ [Disconnect (cid c)]\<rparr>"

text \<open>
  Modelled from the spec: the constructors \<^verbatim>\<open>new c3po.HypervisorStream(endpoint)\<close>
  and \<^verbatim>\<open>new Agent(endpoint)\<close> are defined outside \<^verbatim>\<open>instance.js\<close>. A new
  channel is a new object that records the endpoint and is live.
\<close>

definition construct :: "kind \<Rightarrow> string \<Rightarrow> handle \<Rightarrow> channel \<times> handle" where
  "construct k ep s =
     (\<lparr>cid = nextChannel s, endpoint = ep, active = True\<rparr>,
      s\<lparr>nextChannel := Suc (nextChannel s), trace := trace s @ [Construct k (nextChannel s) ep]\<rparr>)"

definition vpn_ready :: "json \<Rightarrow> error + json option" where
  "vpn_ready i =
     (case property (Some i) ''services'' of
        Inl e \<Rightarrow> Inl e
      | Inr services \<Rightarrow>
          (case property services ''vpn'' of
             Inl e \<Rightarrow> Inl e
           | Inr vpn \<Rightarrow> if truthy vpn then property vpn ''ip'' else Inr vpn))"

definition hypervisor_endpoint :: "handle \<Rightarrow> error + string" where
  "hypervisor_endpoint s =
     (case property (Some (info s)) ''c3po'' of
        Inl e \<Rightarrow> Inl e
      | Inr v \<Rightarrow> Inr (api s @ ''/c3po/'' @ template v))"

text \<open>
  \<^verbatim>\<open>
  async hypervisor() {
      await this._waitFor(() => this.info.services.vpn && this.info.services.vpn.ip);
      let endpoint = this.project.api + '/c3po/' + this.info.c3po;
      if (this.hypervisorStream && this.hypervisorStream.active) {
          if (endpoint === this.hypervisorStream.endpoint)
              return this.hypervisorStream;
          this.hypervisorStream.disconnect();
          this.hypervisorStream = null;
      }
      this.hypervisorStream = new c3po.HypervisorStream(endpoint);
      return this.hypervisorStream;
  }
  \<close>
  \<open>hypervisor_resume\<close> is the part after the \<^verbatim>\<open>await\<close>; \<open>hypervisor\<close> is the call,
  which waits with the callback \<open>vpn_ready\<close>.
\<close>

definition hypervisor_resume :: "handle \<Rightarrow> (error + channel) \<times> handle" where
  "hypervisor_resume s =
     (case hypervisor_endpoint s of
        Inl e \<Rightarrow> (Inl e, s)
      | Inr ep \<Rightarrow>
          (let fresh = (\<lambda>s. case construct HypervisorStream ep s of
                              (c, s1) \<Rightarrow> (Inr c, s1\<lparr>hypervisorStream := Some c\<rparr>))
           in case hypervisorStream s of
                None \<Rightarrow> fresh s
              | Some c \<Rightarrow>
                  if active c then
                    (if ep = endpoint c then (Inr c, s)
                     else fresh ((disconnect c s)\<lparr>hypervisorStream := None\<rparr>))
                  else fresh s))"

definition hypervisor :: "handle \<Rightarrow> nat \<times> handle" where
  "hypervisor s = waitFor vpn_ready (Channel HypervisorStream) s"

definition agent_present :: "json \<Rightarrow> error + json option" where
  "agent_present i =
     (case property (Some i) ''agent'' of
        Inl e \<Rightarrow> Inl e
      | Inr a \<Rightarrow> Inr (Some (JBool (truthy a))))"

definition agent_endpoint :: "handle \<Rightarrow> error + string" where
  "agent_endpoint s =
     (case property (Some (info s)) ''agent'' of
        Inl e \<Rightarrow> Inl e
      | Inr a \<Rightarrow>
          (case property a ''info'' of
             Inl e \<Rightarrow> Inl e
           | Inr v \<Rightarrow> Inr (api s @ ''/agent/'' @ template v)))"

text \<open>
  \<^verbatim>\<open>agent\<close> is written the same way, with the callback
  \<^verbatim>\<open>() => !!this.info.agent\<close>, the endpoint
  \<^verbatim>\<open>this.project.api + '/agent/' + this.info.agent.info\<close> and the field
  \<^verbatim>\<open>agentStream\<close>.
\<close>

definition agent_resume :: "handle \<Rightarrow> (error + channel) \<times> handle" where
  "agent_resume s =
     (case agent_endpoint s of
        Inl e \<Rightarrow> (Inl e, s)
      | Inr ep \<Rightarrow>
          (let fresh = (\<lambda>s. case construct Agent ep s of
                              (c, s1) \<Rightarrow> (Inr c, s1\<lparr>agentStream := Some c\<rparr>))
           in case agentStream s of
                None \<Rightarrow> fresh s
              | Some c \<Rightarrow>
                  if active c then
                    (if ep = endpoint c then (Inr c, s)
                     else fresh ((disconnect c s)\<lparr>agentStream := None\<rparr>))
                  else fresh s))"

definition agent :: "handle \<Rightarrow> nat \<times> handle" where
  "agent s = waitFor agent_present (Channel Agent) s"

subsection \<open>Events\<close>

text \<open>
  The code awaiting a resolved waiter resumes once the running synchronous code has
  finished: \<open>drain\<close> runs the queued continuations in order.
\<close>

definition deliver :: "nat \<Rightarrow> (error + channel) \<times> handle \<Rightarrow> handle" where
  "deliver i p =
     (case p of
        (Inl e, s) \<Rightarrow> s\<lparr>trace := trace s @ [Threw i e]\<rparr>
      | (Inr c, s) \<Rightarrow> s\<lparr>trace := trace s @ [Returned i (cid c)]\<rparr>)"

definition continue :: "waiter \<Rightarrow> handle \<Rightarrow> handle" where
  "continue w s =
     (case purpose w of
        Plain \<Rightarrow> s
      | Channel HypervisorStream \<Rightarrow> deliver (wid w) (hypervisor_resume s)
      | Channel Agent \<Rightarrow> deliver (wid w) (agent_resume s))"

definition drain :: "handle \<Rightarrow> handle" where
  "drain s = fold continue (microtasks s) (s\<lparr>microtasks := []\<rparr>)"

text \<open>
  One event is one run of synchronous code of the handle: a call by the user of the
  handle, a suspended polling task that resumes, or the liveness flag of a stored
  channel going off outside the handle.
\<close>

datatype event =
    Listen signal nat
  | Unlisten nat
  | WaitFor "json \<Rightarrow> error + json option"
  | WaitForState string
  | FinishRestore
  | Hypervisor
  | AgentCall
  | Refresh "error + json"
  | Rename json "error + json"
  | Start "error + json"
  | Stop "error + json"
  | Reboot "error + json"
  | Destroy "error + json"
  | Tick nat
  | Fetched nat "error + json"
  | Slept nat
  | Inactive kind

fun act :: "event \<Rightarrow> handle \<Rightarrow> handle" where
  "act (Listen Change i) s = on (Observer i) s"
| "act (Listen Panic i) s = on_panic i s"
| "act (Unlisten i) s = removeListener (Observer i) s"
| "act (WaitFor cb) s = snd (waitFor cb Plain s)"
| "act (WaitForState t) s = snd (waitForState t s)"
| "act FinishRestore s = snd (finishRestore s)"
| "act Hypervisor s = snd (hypervisor s)"
| "act AgentCall s = snd (agent s)"
| "act (Refresh r) s = snd (update r s)"
| "act (Rename n r) s = snd (rename n r s)"
| "act (Start r) s = snd (start r s)"
| "act (Stop r) s = snd (stop r s)"
| "act (Reboot r) s = snd (reboot r s)"
| "act (Destroy r) s = snd (destroy r s)"
| "act (Tick i) s = task_begin i s"
| "act (Fetched i r) s = task_fetched i r s"
| "act (Slept i) s = task_slept i s"
| "act (Inactive HypervisorStream) s =
     s\<lparr>hypervisorStream := map_option (\<lambda>c. c\<lparr>active := False\<rparr>) (hypervisorStream s)\<rparr>"
| "act (Inactive Agent) s =
     s\<lparr>agentStream := map_option (\<lambda>c. c\<lparr>active := False\<rparr>) (agentStream s)\<rparr>"

definition step :: "event \<Rightarrow> handle \<Rightarrow> handle" where
  "step e s = drain (act e s)"

definition run :: "event list \<Rightarrow> handle \<Rightarrow> handle" where
  "run es s = fold step es s"

section \<open>A sample handle\<close>

text \<open>A handle as the constructor leaves it, for an instance that is off.\<close>

definition snapshot_off :: json where
  "snapshot_off = JObj [(''id'', JStr ''i1''), (''state'', JStr ''off'')]"

definition snapshot_on :: json where
  "snapshot_on = JObj [(''id'', JStr ''i1''), (''state'', JStr ''on'')]"

text \<open>The snapshot \<open>snapshot_off\<close> with its two keys in the other order.\<close>

definition snapshot_off_reordered :: json where
  "snapshot_off_reordered = JObj [(''state'', JStr ''off''), (''id'', JStr ''i1'')]"

definition snapshot_panicked :: "string \<Rightarrow> json" where
  "snapshot_panicked n =
     JObj [(''id'', JStr ''i1''), (''name'', JStr n), (''panicked'', JBool True)]"

text \<open>A snapshot with an address, a hypervisor path and an agent descriptor.\<close>

definition snapshot_ready :: "string \<Rightarrow> json" where
  "snapshot_ready p =
     JObj [(''id'', JStr ''i1''), (''state'', JStr ''on''),
           (''services'', JObj [(''vpn'', JObj [(''ip'', JStr ''10.0.0.2'')])]),
           (''c3po'', JStr p), (''agent'', JObj [(''info'', JStr p)])]"

definition handle_off :: handle where
  "handle_off =
     \<lparr>api = ''https://host/api'', info = snapshot_off, ident = Some (JStr ''i1''),
      updating = False, hypervisorStream = None, agentStream = None, listeners = [],
      panicObservers = [], tasks = [], microtasks = [], nextWaiter = 0, nextChannel = 0,
      trace = []\<rparr>"

definition handle_ready :: handle where
  "handle_ready = handle_off\<lparr>info := snapshot_ready ''p1''\<rparr>"

section \<open>Notions used in the statements and proofs\<close>

text \<open>The waiters among the listeners of \<^verbatim>\<open>change\<close>, in order.\<close>

fun pending_of :: "listener list \<Rightarrow> waiter list" where
  "pending_of [] = []"
| "pending_of (Waiter w # ls) = w # pending_of ls"
| "pending_of (Observer i # ls) = pending_of ls"

definition pending :: "handle \<Rightarrow> waiter list" where
  "pending s = pending_of (listeners s)"

text \<open>The test \<^verbatim>\<open>if (done)\<close> of the closure, on a given snapshot.\<close>

definition satisfied :: "waiter \<Rightarrow> json \<Rightarrow> bool" where
  "satisfied w i = (case callback w i of Inl e \<Rightarrow> False | Inr v \<Rightarrow> truthy v)"

fun notices :: "json \<Rightarrow> listener list \<Rightarrow> action list" where
  "notices i [] = []"
| "notices i (Waiter w # ls) =
     (if satisfied w i then Resolved (wid w) # notices i ls else notices i ls)"
| "notices i (Observer j # ls) = Notified j Change # notices i ls"

fun survivors :: "json \<Rightarrow> listener list \<Rightarrow> listener list" where
  "survivors i [] = []"
| "survivors i (Waiter w # ls) = (if satisfied w i then survivors i ls else Waiter w # survivors i ls)"
| "survivors i (Observer j # ls) = Observer j # survivors i ls"

text \<open>
  What holds of the waiters of a handle whenever its synchronous code has run to its
  end: the pending waiters are distinct closures created by earlier calls, none of them
  is satisfied by the cached snapshot, none of them has been resolved, and only closures
  created earlier have been resolved.
\<close>

definition sound :: "handle \<Rightarrow> bool" where
  "sound s =
     (distinct (map wid (pending s)) \<and>
      list_all (\<lambda>w. wid w < nextWaiter s \<and> \<not> satisfied w (info s)
                    \<and> Resolved (wid w) \<notin> set (trace s)) (pending s) \<and>
      list_all (\<lambda>a. case a of Resolved i \<Rightarrow> i < nextWaiter s | _ \<Rightarrow> True) (trace s))"

text \<open>What holds between two events: also, no resolved waiter is left to resume.\<close>

definition consistent :: "handle \<Rightarrow> bool" where
  "consistent s = (microtasks s = [] \<and> sound s)"

text \<open>An action a listener of \<^verbatim>\<open>change\<close> performs when it is called.\<close>

fun is_notice :: "action \<Rightarrow> bool" where
  "is_notice (Notified i Change) = True"
| "is_notice (Resolved i) = True"
| "is_notice _ = False"

text \<open>The test \<^verbatim>\<open>if (info.panicked)\<close> of \<^verbatim>\<open>update\<close>, false where it throws.\<close>

definition panicked :: "json \<Rightarrow> bool" where
  "panicked i = (case property (Some i) ''panicked'' of Inl e \<Rightarrow> False | Inr p \<Rightarrow> truthy p)"

text \<open>
  Registering the listener \<open>l\<close> on the handle \<open>s\<close> starts a polling loop: a task is
  queued, and when it begins to run it sets the flag and issues its first fetch.
\<close>

definition rearms :: "listener \<Rightarrow> handle \<Rightarrow> bool" where
  "rearms l s =
     (tasks (on l s) = tasks s @ [Scheduled] \<and>
      tasks (task_begin (length (tasks s)) (on l s)) = tasks s @ [Fetching] \<and>
      updating (task_begin (length (tasks s)) (on l s)) \<and>
      trace (task_begin (length (tasks s)) (on l s))
        = trace s @ [Request (''/instances/'' @ template (ident s)) Default])"

definition has_state :: "string \<Rightarrow> json \<Rightarrow> bool" where
  "has_state t i = (property (Some i) ''state'' = Inr (Some (JStr t)))"

text \<open>
  The snapshot an event delivers when it completes a refresh: an explicit
  \<^verbatim>\<open>update\<close> whose fetch succeeds, or the successful fetch of a polling task that
  awaits one.
\<close>

fun completes :: "event \<Rightarrow> handle \<Rightarrow> json option" where
  "completes (Refresh (Inr i)) s = Some i"
| "completes (Fetched n (Inr i)) s =
     (if n < length (tasks s) \<and> tasks s ! n = Fetching then Some i else None)"
| "completes _ s = None"

text \<open>An event that completes a refresh whose fetched snapshot has the state \<open>t\<close>.\<close>

definition arrives :: "string \<Rightarrow> event \<Rightarrow> handle \<Rightarrow> bool" where
  "arrives t e s = (case completes e s of None \<Rightarrow> False | Some i \<Rightarrow> has_state t i)"

fun arrived :: "string \<Rightarrow> event list \<Rightarrow> handle \<Rightarrow> bool" where
  "arrived t [] s = False"
| "arrived t (e # es) s = (arrives t e s \<or> arrived t es (step e s))"

text \<open>Two handles that agree on what \<open>sound\<close> reads.\<close>

definition alike :: "handle \<Rightarrow> handle \<Rightarrow> bool" where
  "alike s s' =
     (pending s' = pending s \<and> info s' = info s \<and> nextWaiter s' = nextWaiter s \<and>
      filter is_notice (trace s') = filter is_notice (trace s))"

text \<open>An action of the code that resumes after a waiter is resolved.\<close>

fun is_delivery :: "action \<Rightarrow> bool" where
  "is_delivery (Disconnect i) = True"
| "is_delivery (Construct k i ep) = True"
| "is_delivery (Returned i j) = True"
| "is_delivery (Threw i e) = True"
| "is_delivery _ = False"

subsection \<open>Reading a serialisation back\<close>

text \<open>
  The notions below serve the proof that \<open>stringify\<close> is injective: the first
  character of a serialisation tells the constructor, and no serialisation is a proper
  prefix of another one when a separator or a closing bracket follows.
\<close>

definition is_digit :: "char \<Rightarrow> bool" where
  "is_digit c = (c \<in> set ''0123456789'')"

definition no_digit_ahead :: "string \<Rightarrow> bool" where
  "no_digit_ahead r = (case r of [] \<Rightarrow> True | c # _ \<Rightarrow> \<not> is_digit c)"

fun shape :: "json \<Rightarrow> nat" where
  "shape JNull = 0"
| "shape (JBool _) = 1"
| "shape (JNum _) = 2"
| "shape (JStr _) = 3"
| "shape (JArr _) = 4"
| "shape (JObj _) = 5"

definition lead_shape :: "char \<Rightarrow> nat" where
  "lead_shape c =
     (if c = CHR ''n'' then 0 else if c = CHR ''t'' \<or> c = CHR ''f'' then 1
      else if c = CHR ''-'' \<or> is_digit c then 2 else if c = CHR 0x22 then 3
      else if c = CHR ''['' then 4 else if c = CHR ''{'' then 5 else 6)"

definition closes :: "string \<Rightarrow> bool" where
  "closes r = (case r of [] \<Rightarrow> False | c # _ \<Rightarrow> c = CHR '','' \<or> c = CHR '']'' \<or> c = CHR ''}'')"

fun rest :: "('a \<Rightarrow> string) \<Rightarrow> 'a list \<Rightarrow> string" where
  "rest enc [] = []"
| "rest enc (x # xs) = CHR '','' # enc x @ rest enc xs"

definition unambiguous :: "('a \<Rightarrow> string) \<Rightarrow> 'a \<Rightarrow> bool" where
  "unambiguous enc x =
     (\<forall>y r r'. closes r \<longrightarrow> closes r' \<longrightarrow> enc x @ r = enc y @ r' \<longrightarrow> x = y \<and> r = r')"

definition member :: "string \<times> json \<Rightarrow> string" where
  "member = (\<lambda>(k, v). quote k @ '':'' @ stringify v)"

section \<open>The serialisation is injective\<close>

lemma hex_digit_is_digit: "n < 10 \<Longrightarrow> is_digit (hex_digit n)"
proof -
  assume "n < 10"
  then have "n \<in> {0,1,2,3,4,5,6,7,8,9}" by auto
  then show ?thesis by (auto simp: hex_digit_def is_digit_def)
qed

lemma hex_digit_inj: "n < 16 \<Longrightarrow> m < 16 \<Longrightarrow> hex_digit n = hex_digit m \<Longrightarrow> n = m"
proof -
  assume a: "n < 16" "m < 16" "hex_digit n = hex_digit m"
  have d: "distinct ''0123456789abcdef''" by simp
  have l: "length ''0123456789abcdef'' = 16" by simp
  from a d l show ?thesis
    unfolding hex_digit_def by (metis nth_eq_iff_index_eq)
qed

lemma digits_small: "n < 10 \<Longrightarrow> digits n = [hex_digit n]"
  by (subst digits.simps) simp

lemma digits_large: "\<not> n < 10 \<Longrightarrow> digits n = digits (n div 10) @ [hex_digit (n mod 10)]"
  by (subst digits.simps) simp

lemma digits_ne: "digits n \<noteq> []"
  by (cases "n < 10") (simp_all add: digits_small digits_large)

lemma digits_all: "c \<in> set (digits n) \<Longrightarrow> is_digit c"
proof (induction n arbitrary: c rule: digits.induct)
  case (1 n)
  show ?case
  proof (cases "n < 10")
    case True
    with "1.prems" show ?thesis
      by (simp add: digits_small hex_digit_is_digit)
  next
    case False
    from "1.prems" have "c \<in> set (digits (n div 10)) \<or> c = hex_digit (n mod 10)"
      using False by (auto simp: digits_large)
    then show ?thesis
      using "1.IH" False hex_digit_is_digit [of "n mod 10"] by auto
  qed
qed

lemma digits_inj: "digits n = digits m \<Longrightarrow> n = m"
proof (induction n arbitrary: m rule: digits.induct)
  case (1 n)
  show ?case
  proof (cases "n < 10")
    case n: True
    show ?thesis
    proof (cases "m < 10")
      case True
      with n "1.prems" have "hex_digit n = hex_digit m"
        by (simp add: digits_small)
      with n True show ?thesis by (intro hex_digit_inj) auto
    next
      case False
      then show ?thesis
        using "1.prems" n digits_ne [of "m div 10"] by (simp add: digits_small digits_large)
    qed
  next
    case n: False
    show ?thesis
    proof (cases "m < 10")
      case True
      then show ?thesis
        using "1.prems" n digits_ne [of "n div 10"] by (simp add: digits_small digits_large)
    next
      case False
      from n False "1.prems" have a: "digits (n div 10) = digits (m div 10)"
        and b: "hex_digit (n mod 10) = hex_digit (m mod 10)" by (simp_all add: digits_large)
      from n a have "n div 10 = m div 10" by (rule "1.IH")
      moreover from b have "n mod 10 = m mod 10" by (intro hex_digit_inj) auto
      ultimately show ?thesis by (metis div_mult_mod_eq)
    qed
  qed
qed

lemma run_prefix:
  assumes "\<forall>c\<in>set xs. P c" "\<forall>c\<in>set ys. P c"
    and "case r of [] \<Rightarrow> True | c # _ \<Rightarrow> \<not> P c" "case r' of [] \<Rightarrow> True | c # _ \<Rightarrow> \<not> P c"
    and "xs @ r = ys @ r'"
  shows "xs = ys \<and> r = r'"
proof -
  have a: "takeWhile P (xs @ r) = xs" using assms(1,3)
    by (cases r) (simp_all add: takeWhile_append2)
  have b: "takeWhile P (ys @ r') = ys" using assms(2,4)
    by (cases r') (simp_all add: takeWhile_append2)
  from a b assms(5) have "xs = ys" by simp
  with assms(5) show ?thesis by simp
qed

lemma digits_prefix:
  assumes "digits n @ r = digits m @ r'" "no_digit_ahead r" "no_digit_ahead r'"
  shows "n = m \<and> r = r'"
proof -
  have "digits n = digits m \<and> r = r'"
    using assms digits_all
    by (intro run_prefix [where P = is_digit]) (auto simp: no_digit_ahead_def)
  then show ?thesis by (auto dest: digits_inj)
qed

lemma digits_hd: "\<exists>d ds. digits n = d # ds \<and> is_digit d"
  using digits_ne [of n] digits_all [of _ n] by (cases "digits n") auto

lemma number_prefix:
  assumes "number i @ r = number j @ r'" "no_digit_ahead r" "no_digit_ahead r'"
  shows "i = j \<and> r = r'"
proof -
  obtain d ds where d: "digits (nat (- i)) = d # ds" "is_digit d" using digits_hd by blast
  obtain e es where e: "digits (nat j) = e # es" "is_digit e" using digits_hd by blast
  obtain d' ds' where d': "digits (nat (- j)) = d' # ds'" "is_digit d'" using digits_hd by blast
  obtain e' es' where e': "digits (nat i) = e' # es'" "is_digit e'" using digits_hd by blast
  have nm: "\<not> is_digit CHR ''-''" by (simp add: is_digit_def)
  consider "i < 0" "j < 0" | "i < 0" "\<not> j < 0" | "\<not> i < 0" "j < 0" | "\<not> i < 0" "\<not> j < 0"
    by blast
  then show ?thesis
  proof cases
    case 1
    with assms have "digits (nat (- i)) @ r = digits (nat (- j)) @ r'" by (simp add: number_def)
    then have "nat (- i) = nat (- j) \<and> r = r'" using assms(2,3) by (rule digits_prefix)
    with 1 show ?thesis by auto
  next
    case 2
    with assms(1) d e nm show ?thesis by (auto simp: number_def)
  next
    case 3
    with assms(1) d' e' nm show ?thesis by (auto simp: number_def)
  next
    case 4
    with assms have "digits (nat i) @ r = digits (nat j) @ r'" by (simp add: number_def)
    then have "nat i = nat j \<and> r = r'" using assms(2,3) by (rule digits_prefix)
    with 4 show ?thesis by auto
  qed
qed

lemma number_hd: "\<exists>d ds. number i = d # ds \<and> (d = CHR ''-'' \<or> is_digit d)"
  using digits_hd [of "nat i"] digits_hd [of "nat (- i)"] by (auto simp: number_def)

lemma ctrl_eq:
  assumes "hex_digit ((of_char c :: nat) div 16) = hex_digit ((of_char d :: nat) div 16)"
    and "hex_digit ((of_char c :: nat) mod 16) = hex_digit ((of_char d :: nat) mod 16)"
    and "(of_char c :: nat) < 32" "(of_char d :: nat) < 32"
  shows "c = d"
proof -
  have "(of_char c :: nat) div 16 = (of_char d :: nat) div 16"
    using assms(1,3,4) by (intro hex_digit_inj) auto
  moreover have "(of_char c :: nat) mod 16 = (of_char d :: nat) mod 16"
    using assms(2) by (intro hex_digit_inj) auto
  ultimately have "(of_char c :: nat) = of_char d" by (metis div_mult_mod_eq)
  then show ?thesis by simp
qed

lemma escape_prefix: "escape c @ x = escape d @ y \<Longrightarrow> c = d \<and> x = y"
  unfolding escape_def by (auto split: if_splits dest: ctrl_eq)

lemma escape_not_quote: "escape c @ x \<noteq> CHR 0x22 # y"
  unfolding escape_def by (auto split: if_splits)

lemma escaped_prefix:
  "concat (map escape a) @ CHR 0x22 # r = concat (map escape b) @ CHR 0x22 # r'
     \<Longrightarrow> a = b \<and> r = r'"
proof (induction a arbitrary: b)
  case Nil
  then show ?case using escape_not_quote by (cases b) (auto dest: sym)
next
  case (Cons c a)
  show ?case
  proof (cases b)
    case Nil
    with Cons.prems show ?thesis using escape_not_quote by auto
  next
    case (Cons d b')
    with Cons.prems have "escape c @ (concat (map escape a) @ CHR 0x22 # r)
        = escape d @ (concat (map escape b') @ CHR 0x22 # r')" by simp
    then have "c = d" "concat (map escape a) @ CHR 0x22 # r = concat (map escape b') @ CHR 0x22 # r'"
      by (auto dest: escape_prefix)
    with Cons.IH Cons show ?thesis by auto
  qed
qed

lemma quote_prefix: "quote a @ r = quote b @ r' \<Longrightarrow> a = b \<and> r = r'"
  unfolding quote_def using escaped_prefix [of a r b r'] by simp

lemma lead_shape_digit: "is_digit c \<Longrightarrow> lead_shape c = 2"
  unfolding lead_shape_def is_digit_def by auto

lemma lead_shape_simps:
  "lead_shape CHR ''n'' = 0" "lead_shape CHR ''t'' = 1" "lead_shape CHR ''f'' = 1"
  "lead_shape CHR ''-'' = 2" "lead_shape CHR 0x22 = 3" "lead_shape CHR ''['' = 4"
  "lead_shape CHR ''{'' = 5" "lead_shape CHR '','' = 6" "lead_shape CHR '']'' = 6"
  "lead_shape CHR ''}'' = 6"
  unfolding lead_shape_def is_digit_def by simp_all

lemma stringify_lead: "\<exists>c cs. stringify a = c # cs \<and> lead_shape c = shape a"
proof (cases a)
  case (JNum i)
  then show ?thesis using number_hd [of i] by (auto simp: lead_shape_simps lead_shape_digit)
next
  case (JBool b)
  then show ?thesis by (simp add: lead_shape_simps)
qed (simp_all add: lead_shape_simps quote_def)

lemma same_shape:
  assumes "stringify a @ r = stringify b @ r'"
  shows "shape a = shape b"
  using assms stringify_lead [of a] stringify_lead [of b] by auto

lemma closes_lead: "closes r \<Longrightarrow> lead_shape (hd r) = 6"
  by (auto simp: closes_def lead_shape_simps split: list.splits)

lemma closes_no_digit: "closes r \<Longrightarrow> no_digit_ahead r"
  using lead_shape_digit closes_lead [of r]
  by (cases r) (auto simp: no_digit_ahead_def closes_def)

lemma shape_less: "shape a < 6"
  by (cases a) simp_all

lemma closes_not_value: "\<not> closes (stringify a @ r)"
  using stringify_lead [of a] shape_less [of a] closes_lead [of "stringify a @ r"] by auto

lemma join_rest: "join '','' (map enc (x # xs)) = enc x @ rest enc xs"
  by (induction xs arbitrary: x) simp_all

lemma closes_rest: "c = CHR '']'' \<or> c = CHR ''}'' \<Longrightarrow> closes (rest enc xs @ c # r)"
  by (cases xs) (auto simp: closes_def)

lemma tail_items:
  assumes "\<forall>x\<in>set xs. unambiguous enc x"
    and "\<And>y r. \<not> closes (enc y @ r)"
    and "c = CHR '']'' \<or> c = CHR ''}''"
    and "rest enc xs @ c # r = rest enc ys @ c # r'"
  shows "xs = ys \<and> r = r'"
  using assms(1,4)
proof (induction xs arbitrary: ys)
  case Nil
  then show ?case using assms(3) by (cases ys) auto
next
  case (Cons x xs)
  show ?case
  proof (cases ys)
    case Nil
    with Cons.prems assms(3) show ?thesis by auto
  next
    case (Cons y ys')
    let ?R = "rest enc xs @ c # r"
    let ?R' = "rest enc ys' @ c # r'"
    from Cons Cons.prems(2) have eq: "enc x @ ?R = enc y @ ?R'" by simp
    have "closes ?R" using assms(3) by (rule closes_rest)
    moreover have "closes ?R'" using assms(3) by (rule closes_rest)
    moreover have "unambiguous enc x" using Cons.prems(1) by simp
    ultimately have "x = y \<and> ?R = ?R'" using eq unfolding unambiguous_def by blast
    with Cons.IH [of ys'] Cons.prems(1) Cons show ?thesis by simp
  qed
qed

lemma items:
  assumes "\<forall>x\<in>set xs. unambiguous enc x"
    and "\<And>y r. \<not> closes (enc y @ r)"
    and "c = CHR '']'' \<or> c = CHR ''}''"
    and "join '','' (map enc xs) @ c # r = join '','' (map enc ys) @ c # r'"
  shows "xs = ys \<and> r = r'"
proof -
  have cl: "\<And>t. closes (c # t)" using assms(3) by (auto simp: closes_def)
  show ?thesis
  proof (cases xs)
    case Nil
    show ?thesis
    proof (cases ys)
      case Nil
      with \<open>xs = []\<close> assms(4) show ?thesis by simp
    next
      case (Cons y ys')
      have "join '','' (map enc ys) = enc y @ rest enc ys'"
        unfolding Cons by (rule join_rest)
      with \<open>xs = []\<close> assms(4) have "c # r = enc y @ (rest enc ys' @ c # r')" by simp
      with cl [of r] assms(2) [of y "rest enc ys' @ c # r'"] show ?thesis by simp
    qed
  next
    case (Cons x xs')
    have jx: "join '','' (map enc xs) = enc x @ rest enc xs'"
      unfolding Cons by (rule join_rest)
    show ?thesis
    proof (cases ys)
      case Nil
      with jx assms(4) have "enc x @ (rest enc xs' @ c # r) = c # r'" by simp
      with cl [of r'] assms(2) [of x "rest enc xs' @ c # r"] show ?thesis by simp
    next
      case ys: (Cons y ys')
      have jy: "join '','' (map enc ys) = enc y @ rest enc ys'"
        unfolding ys by (rule join_rest)
      let ?R = "rest enc xs' @ c # r"
      let ?R' = "rest enc ys' @ c # r'"
      from jx jy assms(4) have eq: "enc x @ ?R = enc y @ ?R'" by simp
      have "closes ?R" using assms(3) by (rule closes_rest)
      moreover have "closes ?R'" using assms(3) by (rule closes_rest)
      moreover have "unambiguous enc x" using assms(1) Cons by simp
      ultimately have xy: "x = y \<and> ?R = ?R'" using eq unfolding unambiguous_def by blast
      moreover have "\<forall>x\<in>set xs'. unambiguous enc x" using assms(1) Cons by simp
      ultimately have "xs' = ys' \<and> r = r'"
        using tail_items [of xs' enc c r ys' r'] assms(2,3) by blast
      with xy Cons ys show ?thesis by simp
    qed
  qed
qed

lemma member_not_closes: "\<not> closes (member kv @ r)"
  by (cases kv) (simp add: member_def quote_def closes_def)

lemma member_unambiguous:
  assumes "unambiguous stringify v"
  shows "unambiguous member (k, v)"
  unfolding unambiguous_def
proof (intro allI impI)
  fix y r r'
  assume c: "closes r" "closes r'" and eq: "member (k, v) @ r = member y @ r'"
  obtain k' v' where y: "y = (k', v')" by (cases y)
  from eq y have "quote k @ (CHR '':'' # stringify v @ r) = quote k' @ (CHR '':'' # stringify v' @ r')"
    by (simp add: member_def)
  then have "k = k'" "stringify v @ r = stringify v' @ r'"
    by (auto dest: quote_prefix)
  with assms c y show "(k, v) = y \<and> r = r'" unfolding unambiguous_def by blast
qed

lemma stringify_unambiguous: "unambiguous stringify a"
proof (induction a)
  case JNull
  show ?case unfolding unambiguous_def
  proof (intro allI impI)
    fix y r r'
    assume "closes r" "closes r'" and eq: "stringify JNull @ r = stringify y @ r'"
    from same_shape [OF eq] have "y = JNull" by (cases y) simp_all
    with eq show "JNull = y \<and> r = r'" by simp
  qed
next
  case (JBool b)
  show ?case unfolding unambiguous_def
  proof (intro allI impI)
    fix y r r'
    assume "closes r" "closes r'" and eq: "stringify (JBool b) @ r = stringify y @ r'"
    from same_shape [OF eq] obtain b' where "y = JBool b'" by (cases y) simp_all
    with eq show "JBool b = y \<and> r = r'" by (auto split: if_splits)
  qed
next
  case (JNum i)
  show ?case unfolding unambiguous_def
  proof (intro allI impI)
    fix y r r'
    assume c: "closes r" "closes r'" and eq: "stringify (JNum i) @ r = stringify y @ r'"
    from same_shape [OF eq] obtain j where "y = JNum j" by (cases y) simp_all
    with eq c show "JNum i = y \<and> r = r'"
      using number_prefix [of i r j r'] by (simp add: closes_no_digit)
  qed
next
  case (JStr s)
  show ?case unfolding unambiguous_def
  proof (intro allI impI)
    fix y r r'
    assume "closes r" "closes r'" and eq: "stringify (JStr s) @ r = stringify y @ r'"
    from same_shape [OF eq] obtain t where "y = JStr t" by (cases y) simp_all
    with eq show "JStr s = y \<and> r = r'" using quote_prefix [of s r t r'] by simp
  qed
next
  case (JArr xs)
  show ?case unfolding unambiguous_def
  proof (intro allI impI)
    fix y r r'
    assume "closes r" "closes r'" and eq: "stringify (JArr xs) @ r = stringify y @ r'"
    from same_shape [OF eq] obtain ys where y: "y = JArr ys" by (cases y) simp_all
    have "\<forall>x\<in>set xs. unambiguous stringify x" using JArr.IH by blast
    moreover have "\<And>y r. \<not> closes (stringify y @ r)" using closes_not_value by blast
    moreover from eq y have "join '','' (map stringify xs) @ CHR '']'' # r
        = join '','' (map stringify ys) @ CHR '']'' # r'" by simp
    ultimately have "xs = ys \<and> r = r'" by (intro items [where c = "CHR '']''"]) auto
    with y show "JArr xs = y \<and> r = r'" by simp
  qed
next
  case (JObj kvs)
  show ?case unfolding unambiguous_def
  proof (intro allI impI)
    fix y r r'
    assume "closes r" "closes r'" and eq: "stringify (JObj kvs) @ r = stringify y @ r'"
    from same_shape [OF eq] obtain kvs' where y: "y = JObj kvs'" by (cases y) simp_all
    have "\<forall>kv\<in>set kvs. unambiguous member kv"
    proof
      fix kv assume kv: "kv \<in> set kvs"
      obtain k v where p: "kv = (k, v)" by (cases kv)
      with kv JObj.IH [of kv v] have "unambiguous stringify v" by simp
      with p show "unambiguous member kv" by (simp add: member_unambiguous)
    qed
    moreover have "\<And>y r. \<not> closes (member y @ r)" using member_not_closes by blast
    moreover from eq y have "join '','' (map member kvs) @ CHR ''}'' # r
        = join '','' (map member kvs') @ CHR ''}'' # r'" by (simp add: member_def)
    ultimately have "kvs = kvs' \<and> r = r'" by (intro items [where c = "CHR ''}''"]) auto
    with y show "JObj kvs = y \<and> r = r'" by simp
  qed
qed

lemma stringify_inj: "stringify a = stringify b \<Longrightarrow> a = b"
proof -
  assume "stringify a = stringify b"
  then have "stringify a @ '']'' = stringify b @ '']''" by simp
  moreover have "closes '']''" by (simp add: closes_def)
  ultimately show "a = b" using stringify_unambiguous [of a] unfolding unambiguous_def by blast
qed

section \<open>Properties of the operations\<close>

text \<open>The sample handle is the one the constructor builds.\<close>

lemma handle_off_constructed: "Instance ''https://host/api'' snapshot_off = Inr handle_off"
  by (simp add: Instance_def snapshot_off_def handle_off_def)

lemma command_info: "info (snd (command (fetch ep opts r s))) = info s"
  by (cases r) (simp_all add: command_def fetch_def request_def)

subsection \<open>What each operation leaves alone\<close>

lemma drop_last_snoc: "p x \<Longrightarrow> drop_last p (xs @ [x]) = xs"
  by (induction xs) (auto simp: list_ex_iff)

lemma drop_last_unique:
  "p x \<Longrightarrow> \<not> list_ex p pre \<Longrightarrow> \<not> list_ex p xs \<Longrightarrow> drop_last p (pre @ x # xs) = pre @ xs"
  by (induction pre) (auto simp: list_ex_iff)

lemma drop_last_none: "\<not> list_ex p xs \<Longrightarrow> drop_last p xs = xs"
  by (induction xs) (auto simp: list_ex_iff)

lemma pending_of_append [simp]: "pending_of (xs @ ys) = pending_of xs @ pending_of ys"
  by (induction xs rule: pending_of.induct) simp_all

lemma pending_of_drop_observer [simp]:
  "pending_of (drop_last (same_listener (Observer i)) ls) = pending_of ls"
  by (induction ls rule: pending_of.induct) (auto simp: list_ex_iff)

lemma same_waiter_iff: "list_ex (same_listener (Waiter w)) ls \<longleftrightarrow> wid w \<in> wid ` set (pending_of ls)"
  by (induction ls rule: pending_of.induct) auto

lemma change_satisfied:
  "satisfied w (info s) \<Longrightarrow> change w s = resolve w (removeListener (Waiter w) s)"
  by (simp add: change_def satisfied_def)

lemma change_unsatisfied: "\<not> satisfied w (info s) \<Longrightarrow> change w s = s"
  by (simp add: change_def satisfied_def)

lemma fold_invoke:
  assumes "listeners s = pre @ xs" "distinct (map wid (pending_of (pre @ xs)))"
  shows "fold invoke xs s =
           s\<lparr>listeners := pre @ survivors (info s) xs,
             microtasks := microtasks s @ filter (\<lambda>w. satisfied w (info s)) (pending_of xs),
             trace := trace s @ notices (info s) xs\<rparr>"
  using assms
proof (induction xs arbitrary: s pre rule: pending_of.induct)
  case 1
  then show ?case by simp
next
  case (2 w ls)
  show ?case
  proof (cases "satisfied w (info s)")
    case True
    have a: "\<not> list_ex (same_listener (Waiter w)) pre" "\<not> list_ex (same_listener (Waiter w)) ls"
      using "2.prems"(2) by (auto simp: same_waiter_iff)
    have "drop_last (same_listener (Waiter w)) (pre @ Waiter w # ls) = pre @ ls"
      using a by (intro drop_last_unique) simp_all
    then have c: "change w s = s\<lparr>listeners := pre @ ls, microtasks := microtasks s @ [w],
        trace := trace s @ [Resolved (wid w)]\<rparr>"
      using True "2.prems"(1) by (simp add: change_satisfied resolve_def removeListener_def)
    let ?c = "s\<lparr>listeners := pre @ ls, microtasks := microtasks s @ [w],
        trace := trace s @ [Resolved (wid w)]\<rparr>"
    have "listeners ?c = pre @ ls" "distinct (map wid (pending_of (pre @ ls)))"
      using "2.prems"(2) by simp_all
    note "2.IH" [OF this]
    with True show ?thesis by (simp add: c)
  next
    case False
    have "fold invoke ls s = s\<lparr>listeners := (pre @ [Waiter w]) @ survivors (info s) ls,
             microtasks := microtasks s @ filter (\<lambda>w. satisfied w (info s)) (pending_of ls),
             trace := trace s @ notices (info s) ls\<rparr>"
      by (rule "2.IH") (use "2.prems" in simp_all)
    with False show ?thesis by (simp add: change_unsatisfied)
  qed
next
  case (3 i ls)
  let ?s = "s\<lparr>trace := trace s @ [Notified i Change]\<rparr>"
  have "fold invoke ls ?s = ?s\<lparr>listeners := (pre @ [Observer i]) @ survivors (info ?s) ls,
             microtasks := microtasks ?s @ filter (\<lambda>w. satisfied w (info ?s)) (pending_of ls),
             trace := trace ?s @ notices (info ?s) ls\<rparr>"
    by (rule "3.IH") (use "3.prems" in simp_all)
  then show ?case by simp
qed

subsection \<open>Emitting and refreshing\<close>

lemma change_frame:
  "\<exists>ls ms ns. change w s = s\<lparr>listeners := ls, microtasks := ms, trace := trace s @ ns\<rparr>
      \<and> list_all is_notice ns"
proof (cases "satisfied w (info s)")
  case True
  then have "change w s = s\<lparr>listeners := drop_last (same_listener (Waiter w)) (listeners s),
      microtasks := microtasks s @ [w], trace := trace s @ [Resolved (wid w)]\<rparr>"
    by (simp add: change_satisfied resolve_def removeListener_def)
  moreover have "list_all is_notice [Resolved (wid w)]" by simp
  ultimately show ?thesis by blast
next
  case False
  then have "change w s = s\<lparr>listeners := listeners s, microtasks := microtasks s,
      trace := trace s @ []\<rparr>" by (simp add: change_unsatisfied)
  moreover have "list_all is_notice []" by simp
  ultimately show ?thesis by blast
qed

lemma invoke_frame:
  "\<exists>ls ms ns. invoke l s = s\<lparr>listeners := ls, microtasks := ms, trace := trace s @ ns\<rparr>
      \<and> list_all is_notice ns"
proof (cases l)
  case (Waiter w)
  then show ?thesis using change_frame [of w s] by simp
next
  case (Observer i)
  then have "invoke l s = s\<lparr>listeners := listeners s, microtasks := microtasks s,
      trace := trace s @ [Notified i Change]\<rparr>" by simp
  moreover have "list_all is_notice [Notified i Change]" by simp
  ultimately show ?thesis by blast
qed

lemma fold_invoke_frame:
  "\<exists>ls ms ns. fold invoke xs s = s\<lparr>listeners := ls, microtasks := ms, trace := trace s @ ns\<rparr>
      \<and> list_all is_notice ns"
proof (induction xs arbitrary: s)
  case Nil
  have "fold invoke [] s = s\<lparr>listeners := listeners s, microtasks := microtasks s,
      trace := trace s @ []\<rparr>" by simp
  moreover have "list_all is_notice []" by simp
  ultimately show ?case by blast
next
  case (Cons x xs)
  obtain ls ms ns where a: "invoke x s = s\<lparr>listeners := ls, microtasks := ms, trace := trace s @ ns\<rparr>"
    and n: "list_all is_notice ns" using invoke_frame by blast
  obtain ls' ms' ns' where b: "fold invoke xs (invoke x s)
      = (invoke x s)\<lparr>listeners := ls', microtasks := ms', trace := trace (invoke x s) @ ns'\<rparr>"
    and n': "list_all is_notice ns'" using Cons.IH by blast
  have "fold invoke (x # xs) s = s\<lparr>listeners := ls', microtasks := ms', trace := trace s @ (ns @ ns')\<rparr>"
    by (simp add: b) (simp add: a)
  moreover have "list_all is_notice (ns @ ns')" using n n' by simp
  ultimately show ?case by blast
qed

lemma emit_change_frame:
  "\<exists>ls ms ns. emit_change s = s\<lparr>listeners := ls, microtasks := ms, trace := trace s @ Emit Change # ns\<rparr>
      \<and> list_all is_notice ns"
proof -
  obtain ls ms ns where a: "fold invoke (listeners s) (s\<lparr>trace := trace s @ [Emit Change]\<rparr>)
      = (s\<lparr>trace := trace s @ [Emit Change]\<rparr>)\<lparr>listeners := ls, microtasks := ms,
          trace := trace (s\<lparr>trace := trace s @ [Emit Change]\<rparr>) @ ns\<rparr>"
    and n: "list_all is_notice ns" using fold_invoke_frame by blast
  have "emit_change s = s\<lparr>listeners := ls, microtasks := ms, trace := trace s @ Emit Change # ns\<rparr>"
    by (simp add: emit_change_def a)
  with n show ?thesis by blast
qed

lemma count_notices: "list_all is_notice ns \<Longrightarrow> count_list ns (Emit e) = 0"
  by (induction ns) auto

lemma update_resume_same: "update_resume (Inr (info s)) s = (Inr (), s)"
  by (simp add: update_resume_def)

lemma update_resume_failed: "update_resume (Inl e) s = (Inl e, s)"
  by (simp add: update_resume_def)

lemma update_resume_changed:
  assumes "f \<noteq> info s"
  shows "\<exists>ls ms ns r. update_resume (Inr f) s =
      (r, s\<lparr>info := f, listeners := ls, microtasks := ms,
            trace := trace s @ Emit Change # ns @
              (if panicked f then Emit Panic # map (\<lambda>i. Notified i Panic) (panicObservers s)
               else [])\<rparr>) \<and> list_all is_notice ns"
proof -
  from assms have d: "stringify f \<noteq> stringify (info s)" using stringify_inj by blast
  obtain ls ms ns where a: "emit_change (s\<lparr>info := f\<rparr>)
      = (s\<lparr>info := f\<rparr>)\<lparr>listeners := ls, microtasks := ms,
          trace := trace (s\<lparr>info := f\<rparr>) @ Emit Change # ns\<rparr>"
    and n: "list_all is_notice ns" using emit_change_frame by blast
  show ?thesis
  proof (cases "property (Some f) ''panicked''")
    case (Inl e)
    then have "update_resume (Inr f) s = (Inl e, s\<lparr>info := f, listeners := ls, microtasks := ms,
            trace := trace s @ Emit Change # ns @
              (if panicked f then Emit Panic # map (\<lambda>i. Notified i Panic) (panicObservers s)
               else [])\<rparr>)"
      using d by (simp add: update_resume_def a panicked_def)
    with n show ?thesis by blast
  next
    case (Inr p)
    then have "update_resume (Inr f) s = (Inr (), s\<lparr>info := f, listeners := ls, microtasks := ms,
            trace := trace s @ Emit Change # ns @
              (if panicked f then Emit Panic # map (\<lambda>i. Notified i Panic) (panicObservers s)
               else [])\<rparr>)"
      using d by (simp add: update_resume_def a panicked_def emit_panic_def)
    with n show ?thesis by blast
  qed
qed

lemma count_notified: "count_list (map (\<lambda>i. Notified i e) is) (Emit e') = 0"
  by (induction "is") auto

subsection \<open>The two channels\<close>

lemma hypervisor_resume_result:
  assumes "hypervisor_resume s = (Inr c, s1)"
  shows "hypervisorStream s1 = Some c \<and> hypervisor_endpoint s = Inr (endpoint c)
           \<and> hypervisor_endpoint s1 = hypervisor_endpoint s"
  using assms
  by (auto simp: hypervisor_resume_def construct_def disconnect_def hypervisor_endpoint_def Let_def
      split: sum.splits option.splits if_splits)

lemma agent_resume_result:
  assumes "agent_resume s = (Inr c, s1)"
  shows "agentStream s1 = Some c \<and> agent_endpoint s = Inr (endpoint c)
           \<and> agent_endpoint s1 = agent_endpoint s"
  using assms
  by (auto simp: agent_resume_def construct_def disconnect_def agent_endpoint_def Let_def
      split: sum.splits option.splits if_splits)

lemma hypervisor_resume_reuse:
  "hypervisorStream s = Some c \<Longrightarrow> active c \<Longrightarrow> hypervisor_endpoint s = Inr (endpoint c)
     \<Longrightarrow> hypervisor_resume s = (Inr c, s)"
  by (simp add: hypervisor_resume_def)

lemma agent_resume_reuse:
  "agentStream s = Some c \<Longrightarrow> active c \<Longrightarrow> agent_endpoint s = Inr (endpoint c)
     \<Longrightarrow> agent_resume s = (Inr c, s)"
  by (simp add: agent_resume_def)

lemma hypervisor_resume_moved:
  "hypervisorStream s = Some c \<Longrightarrow> active c \<Longrightarrow> hypervisor_endpoint s = Inr ep
     \<Longrightarrow> ep \<noteq> endpoint c
     \<Longrightarrow> hypervisor_resume s =
          (Inr \<lparr>cid = nextChannel s, endpoint = ep, active = True\<rparr>,
           s\<lparr>hypervisorStream := Some \<lparr>cid = nextChannel s, endpoint = ep, active = True\<rparr>,
             nextChannel := Suc (nextChannel s),
             trace := trace s @ [Disconnect (cid c), Construct HypervisorStream (nextChannel s) ep]\<rparr>)"
  by (simp add: hypervisor_resume_def construct_def disconnect_def)

lemma agent_resume_moved:
  "agentStream s = Some c \<Longrightarrow> active c \<Longrightarrow> agent_endpoint s = Inr ep
     \<Longrightarrow> ep \<noteq> endpoint c
     \<Longrightarrow> agent_resume s =
          (Inr \<lparr>cid = nextChannel s, endpoint = ep, active = True\<rparr>,
           s\<lparr>agentStream := Some \<lparr>cid = nextChannel s, endpoint = ep, active = True\<rparr>,
             nextChannel := Suc (nextChannel s),
             trace := trace s @ [Disconnect (cid c), Construct Agent (nextChannel s) ep]\<rparr>)"
  by (simp add: agent_resume_def construct_def disconnect_def)

lemma hypervisor_resume_fresh:
  "hypervisorStream s = None \<or> (\<exists>c. hypervisorStream s = Some c \<and> \<not> active c)
     \<Longrightarrow> hypervisor_endpoint s = Inr ep
     \<Longrightarrow> hypervisor_resume s =
          (Inr \<lparr>cid = nextChannel s, endpoint = ep, active = True\<rparr>,
           s\<lparr>hypervisorStream := Some \<lparr>cid = nextChannel s, endpoint = ep, active = True\<rparr>,
             nextChannel := Suc (nextChannel s),
             trace := trace s @ [Construct HypervisorStream (nextChannel s) ep]\<rparr>)"
  by (auto simp: hypervisor_resume_def construct_def)

lemma agent_resume_fresh:
  "agentStream s = None \<or> (\<exists>c. agentStream s = Some c \<and> \<not> active c)
     \<Longrightarrow> agent_endpoint s = Inr ep
     \<Longrightarrow> agent_resume s =
          (Inr \<lparr>cid = nextChannel s, endpoint = ep, active = True\<rparr>,
           s\<lparr>agentStream := Some \<lparr>cid = nextChannel s, endpoint = ep, active = True\<rparr>,
             nextChannel := Suc (nextChannel s),
             trace := trace s @ [Construct Agent (nextChannel s) ep]\<rparr>)"
  by (auto simp: agent_resume_def construct_def)

lemma hypervisor_twice:
  assumes "active c" "hypervisor_resume s = (Inr c, s1)" "hypervisorStream s2 = hypervisorStream s1"
  shows "(hypervisor_endpoint s2 = hypervisor_endpoint s \<longrightarrow> hypervisor_resume s2 = (Inr c, s2)) \<and>
         (hypervisor_endpoint s2 = Inr ep \<and> ep \<noteq> endpoint c \<longrightarrow>
            trace (snd (hypervisor_resume s2)) =
              trace s2 @ [Disconnect (cid c), Construct HypervisorStream (nextChannel s2) ep] \<and>
            map_sum id cid (fst (hypervisor_resume s2)) = Inr (nextChannel s2))"
proof -
  from hypervisor_resume_result [OF assms(2)] assms(3)
  have "hypervisorStream s2 = Some c" "hypervisor_endpoint s = Inr (endpoint c)" by simp_all
  then show ?thesis
    using assms(1) hypervisor_resume_reuse [of s2 c] hypervisor_resume_moved [of s2 c ep] by auto
qed

lemma agent_twice:
  assumes "active c" "agent_resume s = (Inr c, s1)" "agentStream s2 = agentStream s1"
  shows "(agent_endpoint s2 = agent_endpoint s \<longrightarrow> agent_resume s2 = (Inr c, s2)) \<and>
         (agent_endpoint s2 = Inr ep \<and> ep \<noteq> endpoint c \<longrightarrow>
            trace (snd (agent_resume s2)) =
              trace s2 @ [Disconnect (cid c), Construct Agent (nextChannel s2) ep] \<and>
            map_sum id cid (fst (agent_resume s2)) = Inr (nextChannel s2))"
proof -
  from agent_resume_result [OF assms(2)] assms(3)
  have "agentStream s2 = Some c" "agent_endpoint s = Inr (endpoint c)" by simp_all
  then show ?thesis
    using assms(1) agent_resume_reuse [of s2 c] agent_resume_moved [of s2 c ep] by auto
qed

text \<open>The definitions a concrete run unfolds.\<close>

lemmas evals = run_def step_def drain_def continue_def deliver_def on_def on_panic_def
  manageUpdates_def waitFor_def waitForState_def change_def resolve_def removeListener_def
  state_is_def task_begin_def task_fetched_def task_slept_def request_def update_def
  update_resume_def emit_change_def emit_panic_def listenerCount_def template_def
  hypervisor_def hypervisor_resume_def vpn_ready_def hypervisor_endpoint_def
  agent_def agent_resume_def agent_present_def agent_endpoint_def construct_def
  disconnect_def Let_def handle_off_def handle_ready_def snapshot_ready_def snapshot_off_def

lemma hypervisor_resume_cases:
  assumes "hypervisor_endpoint s = Inr ep"
  shows "(case hypervisorStream s of
            None \<Rightarrow> trace (snd (hypervisor_resume s))
                      = trace s @ [Construct HypervisorStream (nextChannel s) ep]
          | Some c \<Rightarrow>
              if active c then
                (if ep = endpoint c then hypervisor_resume s = (Inr c, s)
                 else trace (snd (hypervisor_resume s))
                        = trace s @ [Disconnect (cid c), Construct HypervisorStream (nextChannel s) ep])
              else trace (snd (hypervisor_resume s))
                     = trace s @ [Construct HypervisorStream (nextChannel s) ep]) \<and>
         (\<exists>c'. fst (hypervisor_resume s) = Inr c' \<and> endpoint c' = ep \<and>
               hypervisorStream (snd (hypervisor_resume s)) = Some c')"
  using assms
  by (auto simp: hypervisor_resume_def construct_def disconnect_def split: option.splits)

lemma agent_resume_cases:
  assumes "agent_endpoint s = Inr ep"
  shows "(case agentStream s of
            None \<Rightarrow> trace (snd (agent_resume s)) = trace s @ [Construct Agent (nextChannel s) ep]
          | Some c \<Rightarrow>
              if active c then
                (if ep = endpoint c then agent_resume s = (Inr c, s)
                 else trace (snd (agent_resume s))
                        = trace s @ [Disconnect (cid c), Construct Agent (nextChannel s) ep])
              else trace (snd (agent_resume s)) = trace s @ [Construct Agent (nextChannel s) ep]) \<and>
         (\<exists>c'. fst (agent_resume s) = Inr c' \<and> endpoint c' = ep \<and>
               agentStream (snd (agent_resume s)) = Some c')"
  using assms
  by (auto simp: agent_resume_def construct_def disconnect_def split: option.splits)

subsection \<open>The polling task\<close>

lemma removeListener_last:
  assumes "listeners s = [l]"
  shows "removeListener l s = s\<lparr>listeners := []\<rparr>"
proof -
  have "same_listener l l" by (cases l) simp_all
  with assms show ?thesis by (simp add: removeListener_def)
qed

lemma update_resume_tasks [simp]: "tasks (snd (update_resume r s)) = tasks s"
proof (cases r)
  case (Inl e)
  then show ?thesis by (simp add: update_resume_failed)
next
  case (Inr f)
  show ?thesis
  proof (cases "f = info s")
    case True
    with Inr show ?thesis by (simp add: update_resume_same)
  next
    case False
    from update_resume_changed [OF this] Inr show ?thesis by auto
  qed
qed

lemma update_resume_updating [simp]: "updating (snd (update_resume r s)) = updating s"
proof (cases r)
  case (Inl e)
  then show ?thesis by (simp add: update_resume_failed)
next
  case (Inr f)
  show ?thesis
  proof (cases "f = info s")
    case True
    with Inr show ?thesis by (simp add: update_resume_same)
  next
    case False
    from update_resume_changed [OF this] Inr show ?thesis by auto
  qed
qed

lemma update_resume_no_listeners:
  "listeners s = [] \<Longrightarrow> listeners (snd (update_resume r s)) = []"
  by (cases r) (auto simp: update_resume_def emit_change_def emit_panic_def Let_def split: sum.splits)

lemma task_fetched_phase:
  assumes "i < length (tasks s)" "tasks s ! i = Fetching"
  shows "task_fetched i r s =
           (snd (update_resume r s))\<lparr>tasks := (tasks s)[i :=
              (case fst (update_resume r s) of Inl e \<Rightarrow> Crashed | Inr u \<Rightarrow> Sleeping)]\<rparr>"
proof (cases "update_resume r s")
  case (Pair a s1)
  then have "tasks s1 = tasks s" using update_resume_tasks [of r s] by simp
  with Pair assms show ?thesis by (cases a) (simp_all add: task_fetched_def)
qed

lemma rearms_idle: "\<not> updating s \<Longrightarrow> rearms l s"
  by (simp add: rearms_def on_def manageUpdates_def task_begin_def request_def nth_append)

lemma change_tasks [simp]: "tasks (change w s) = tasks s"
  using change_frame [of w s] by auto

lemma change_ident [simp]: "ident (change w s) = ident s"
  using change_frame [of w s] by auto

lemma change_updating [simp]: "updating (change w s) = updating s"
  using change_frame [of w s] by auto

subsection \<open>The invariant\<close>

lemma sound_iff:
  "sound s \<longleftrightarrow>
     distinct (map wid (pending s)) \<and>
     (\<forall>w\<in>set (pending s). wid w < nextWaiter s \<and> \<not> satisfied w (info s)
          \<and> Resolved (wid w) \<notin> set (trace s)) \<and>
     (\<forall>i. Resolved i \<in> set (trace s) \<longrightarrow> i < nextWaiter s)"
proof -
  have "list_all (\<lambda>a. case a of Resolved i \<Rightarrow> i < nextWaiter s | _ \<Rightarrow> True) (trace s)
      \<longleftrightarrow> (\<forall>i. Resolved i \<in> set (trace s) \<longrightarrow> i < nextWaiter s)"
    unfolding list_all_iff by (auto split: action.splits)
  then show ?thesis unfolding sound_def list_all_iff by simp
qed

lemma resolved_is_notice: "Resolved i \<in> set xs \<longleftrightarrow> Resolved i \<in> set (filter is_notice xs)"
  by simp

lemma alike_resolved:
  "alike s s' \<Longrightarrow> Resolved i \<in> set (trace s') \<longleftrightarrow> Resolved i \<in> set (trace s)"
  using resolved_is_notice [of i "trace s"] resolved_is_notice [of i "trace s'"]
  by (simp add: alike_def)

lemma alike_sound: "alike s s' \<Longrightarrow> sound s' = sound s"
  using alike_resolved [of s s'] by (simp add: sound_iff alike_def)

lemma alike_pending: "alike s s' \<Longrightarrow> pending s' = pending s"
  by (simp add: alike_def)

lemma alike_refl [simp]: "alike s s"
  by (simp add: alike_def)

lemma alike_trans: "alike s s' \<Longrightarrow> alike s' s'' \<Longrightarrow> alike s s''"
  by (simp add: alike_def)

lemma alike_request [simp]: "alike s (request ep opts s)"
  by (simp add: alike_def request_def pending_def)

lemma alike_manageUpdates [simp]: "alike s (manageUpdates s)"
  by (simp add: alike_def manageUpdates_def pending_def)

lemma alike_observer [simp]: "alike s (on (Observer i) s)"
  by (simp add: alike_def on_def manageUpdates_def pending_def Let_def)

lemma alike_on_panic [simp]: "alike s (on_panic i s)"
  by (simp add: alike_def on_panic_def manageUpdates_def pending_def Let_def)

lemma alike_unlisten [simp]: "alike s (removeListener (Observer i) s)"
  by (simp add: alike_def removeListener_def pending_def)

lemma alike_command [simp]: "alike s (snd (command (fetch ep opts r s)))"
  by (cases r) (simp_all add: command_def fetch_def)

lemma alike_task_begin [simp]: "alike s (task_begin i s)"
  by (simp add: alike_def task_begin_def request_def pending_def)

lemma alike_task_slept [simp]: "alike s (task_slept i s)"
  by (simp add: alike_def task_slept_def request_def pending_def)

lemma alike_inactive [simp]: "alike s (act (Inactive k) s)"
  by (cases k) (simp_all add: alike_def pending_def)

subsection \<open>Resuming after a waiter\<close>

lemma deliver_frame:
  assumes "\<exists>hs ags nc ns. snd p = s\<lparr>hypervisorStream := hs, agentStream := ags, nextChannel := nc,
      trace := trace s @ ns\<rparr> \<and> list_all is_delivery ns"
  shows "\<exists>hs ags nc ns. deliver i p = s\<lparr>hypervisorStream := hs, agentStream := ags, nextChannel := nc,
      trace := trace s @ ns\<rparr> \<and> list_all is_delivery ns"
proof -
  obtain a s1 where p: "p = (a, s1)" by (cases p)
  with assms obtain hs ags nc ns where
    s1: "s1 = s\<lparr>hypervisorStream := hs, agentStream := ags, nextChannel := nc, trace := trace s @ ns\<rparr>"
    and n: "list_all is_delivery ns" by auto
  show ?thesis
  proof (cases a)
    case (Inl e)
    then have "deliver i p = s\<lparr>hypervisorStream := hs, agentStream := ags, nextChannel := nc,
        trace := trace s @ (ns @ [Threw i e])\<rparr>" by (simp add: deliver_def p s1)
    moreover have "list_all is_delivery (ns @ [Threw i e])" using n by simp
    ultimately show ?thesis by blast
  next
    case (Inr c)
    then have "deliver i p = s\<lparr>hypervisorStream := hs, agentStream := ags, nextChannel := nc,
        trace := trace s @ (ns @ [Returned i (cid c)])\<rparr>" by (simp add: deliver_def p s1)
    moreover have "list_all is_delivery (ns @ [Returned i (cid c)])" using n by simp
    ultimately show ?thesis by blast
  qed
qed

lemma frame_same:
  "\<exists>hs ags nc ns. s = s\<lparr>hypervisorStream := hs, agentStream := ags, nextChannel := nc,
      trace := trace s @ ns\<rparr> \<and> list_all is_delivery ns"
proof -
  have "s = s\<lparr>hypervisorStream := hypervisorStream s, agentStream := agentStream s,
      nextChannel := nextChannel s, trace := trace s @ []\<rparr>" by simp
  moreover have "list_all is_delivery []" by simp
  ultimately show ?thesis by blast
qed

lemma hypervisor_resume_frame:
  "\<exists>hs ags nc ns. snd (hypervisor_resume s) = s\<lparr>hypervisorStream := hs, agentStream := ags,
      nextChannel := nc, trace := trace s @ ns\<rparr> \<and> list_all is_delivery ns"
proof (cases "hypervisor_endpoint s")
  case (Inl e)
  then have "snd (hypervisor_resume s) = s" by (simp add: hypervisor_resume_def)
  then show ?thesis using frame_same [of s] by simp
next
  case (Inr ep)
  let ?c = "\<lparr>cid = nextChannel s, endpoint = ep, active = True\<rparr>"
  consider (reuse) c where "hypervisorStream s = Some c" "active c" "ep = endpoint c"
    | (moved) c where "hypervisorStream s = Some c" "active c" "ep \<noteq> endpoint c"
    | (fresh) "hypervisorStream s = None \<or> (\<exists>c. hypervisorStream s = Some c \<and> \<not> active c)"
    by (cases "hypervisorStream s") auto
  then show ?thesis
  proof cases
    case reuse
    then have "snd (hypervisor_resume s) = s" using Inr by (simp add: hypervisor_resume_reuse)
    then show ?thesis using frame_same [of s] by simp
  next
    case moved
    then have "snd (hypervisor_resume s) = s\<lparr>hypervisorStream := Some ?c, agentStream := agentStream s,
        nextChannel := Suc (nextChannel s),
        trace := trace s @ [Disconnect (cid c), Construct HypervisorStream (nextChannel s) ep]\<rparr>"
      using Inr by (simp add: hypervisor_resume_moved)
    moreover have "list_all is_delivery [Disconnect (cid c), Construct HypervisorStream (nextChannel s) ep]"
      by simp
    ultimately show ?thesis by blast
  next
    case fresh
    then have "snd (hypervisor_resume s) = s\<lparr>hypervisorStream := Some ?c, agentStream := agentStream s,
        nextChannel := Suc (nextChannel s),
        trace := trace s @ [Construct HypervisorStream (nextChannel s) ep]\<rparr>"
      using Inr by (simp add: hypervisor_resume_fresh)
    moreover have "list_all is_delivery [Construct HypervisorStream (nextChannel s) ep]" by simp
    ultimately show ?thesis by blast
  qed
qed

lemma agent_resume_frame:
  "\<exists>hs ags nc ns. snd (agent_resume s) = s\<lparr>hypervisorStream := hs, agentStream := ags,
      nextChannel := nc, trace := trace s @ ns\<rparr> \<and> list_all is_delivery ns"
proof (cases "agent_endpoint s")
  case (Inl e)
  then have "snd (agent_resume s) = s" by (simp add: agent_resume_def)
  then show ?thesis using frame_same [of s] by simp
next
  case (Inr ep)
  let ?c = "\<lparr>cid = nextChannel s, endpoint = ep, active = True\<rparr>"
  consider (reuse) c where "agentStream s = Some c" "active c" "ep = endpoint c"
    | (moved) c where "agentStream s = Some c" "active c" "ep \<noteq> endpoint c"
    | (fresh) "agentStream s = None \<or> (\<exists>c. agentStream s = Some c \<and> \<not> active c)"
    by (cases "agentStream s") auto
  then show ?thesis
  proof cases
    case reuse
    then have "snd (agent_resume s) = s" using Inr by (simp add: agent_resume_reuse)
    then show ?thesis using frame_same [of s] by simp
  next
    case moved
    then have "snd (agent_resume s) = s\<lparr>hypervisorStream := hypervisorStream s, agentStream := Some ?c,
        nextChannel := Suc (nextChannel s),
        trace := trace s @ [Disconnect (cid c), Construct Agent (nextChannel s) ep]\<rparr>"
      using Inr by (simp add: agent_resume_moved)
    moreover have "list_all is_delivery [Disconnect (cid c), Construct Agent (nextChannel s) ep]"
      by simp
    ultimately show ?thesis by blast
  next
    case fresh
    then have "snd (agent_resume s) = s\<lparr>hypervisorStream := hypervisorStream s, agentStream := Some ?c,
        nextChannel := Suc (nextChannel s),
        trace := trace s @ [Construct Agent (nextChannel s) ep]\<rparr>"
      using Inr by (simp add: agent_resume_fresh)
    moreover have "list_all is_delivery [Construct Agent (nextChannel s) ep]" by simp
    ultimately show ?thesis by blast
  qed
qed

lemma continue_frame:
  "\<exists>hs ags nc ns. continue w s = s\<lparr>hypervisorStream := hs, agentStream := ags, nextChannel := nc,
      trace := trace s @ ns\<rparr> \<and> list_all is_delivery ns"
proof (cases "purpose w")
  case Plain
  then show ?thesis using frame_same [of s] by (simp add: continue_def)
next
  case (Channel k)
  then show ?thesis
    using deliver_frame [OF hypervisor_resume_frame, where i = "wid w" and s = s]
      deliver_frame [OF agent_resume_frame, where i = "wid w" and s = s]
    by (cases k) (simp_all add: continue_def)
qed

lemma fold_continue_frame:
  "\<exists>hs ags nc ns. fold continue ws s = s\<lparr>hypervisorStream := hs, agentStream := ags,
      nextChannel := nc, trace := trace s @ ns\<rparr> \<and> list_all is_delivery ns"
proof (induction ws arbitrary: s)
  case Nil
  then show ?case using frame_same [of s] by simp
next
  case (Cons w ws)
  obtain hs ags nc ns where a: "continue w s = s\<lparr>hypervisorStream := hs, agentStream := ags,
      nextChannel := nc, trace := trace s @ ns\<rparr>" and n: "list_all is_delivery ns"
    using continue_frame by blast
  obtain hs' ags' nc' ns' where b: "fold continue ws (continue w s) = (continue w s)\<lparr>hypervisorStream := hs',
      agentStream := ags', nextChannel := nc', trace := trace (continue w s) @ ns'\<rparr>"
    and n': "list_all is_delivery ns'" using Cons.IH by blast
  have "fold continue (w # ws) s = s\<lparr>hypervisorStream := hs', agentStream := ags',
      nextChannel := nc', trace := trace s @ (ns @ ns')\<rparr>"
    by (simp add: b) (simp add: a)
  moreover have "list_all is_delivery (ns @ ns')" using n n' by simp
  ultimately show ?case by blast
qed

lemma drain_frame:
  "\<exists>hs ags nc ns. drain s = s\<lparr>microtasks := [], hypervisorStream := hs, agentStream := ags,
      nextChannel := nc, trace := trace s @ ns\<rparr> \<and> list_all is_delivery ns"
proof -
  obtain hs ags nc ns where a: "fold continue (microtasks s) (s\<lparr>microtasks := []\<rparr>)
      = (s\<lparr>microtasks := []\<rparr>)\<lparr>hypervisorStream := hs, agentStream := ags,
      nextChannel := nc, trace := trace (s\<lparr>microtasks := []\<rparr>) @ ns\<rparr>"
    and n: "list_all is_delivery ns" using fold_continue_frame by blast
  have "drain s = s\<lparr>microtasks := [], hypervisorStream := hs, agentStream := ags,
      nextChannel := nc, trace := trace s @ ns\<rparr>" by (simp add: drain_def a)
  with n show ?thesis by blast
qed

lemma delivery_not_notice: "list_all is_delivery ns \<Longrightarrow> filter is_notice ns = []"
proof (induction ns)
  case Nil
  then show ?case by simp
next
  case (Cons a ns)
  then show ?case by (cases a) simp_all
qed

lemma alike_drain [simp]: "alike s (drain s)"
proof -
  obtain hs ags nc ns where a: "drain s = s\<lparr>microtasks := [], hypervisorStream := hs,
      agentStream := ags, nextChannel := nc, trace := trace s @ ns\<rparr>"
    and n: "list_all is_delivery ns" using drain_frame by blast
  show ?thesis unfolding a using delivery_not_notice [OF n] by (simp add: alike_def pending_def)
qed

lemma drain_microtasks [simp]: "microtasks (drain s) = []"
  using drain_frame [of s] by auto

lemma drain_tasks [simp]: "tasks (drain s) = tasks s"
  using drain_frame [of s] by auto

lemma drain_idle: "microtasks s = [] \<Longrightarrow> drain s = s"
  by (simp add: drain_def)

subsection \<open>Waiting and refreshing, seen through the waiters\<close>

lemma survivors_pending:
  "pending_of (survivors i ls) = filter (\<lambda>w. \<not> satisfied w i) (pending_of ls)"
  by (induction ls rule: pending_of.induct) simp_all

lemma notices_resolved:
  "Resolved n \<in> set (notices i ls) \<longleftrightarrow> (\<exists>w\<in>set (pending_of ls). satisfied w i \<and> wid w = n)"
  by (induction ls rule: pending_of.induct) auto

lemma emit_change_distinct:
  assumes "distinct (map wid (pending s))"
  shows "emit_change s =
           s\<lparr>listeners := survivors (info s) (listeners s),
             microtasks := microtasks s @ filter (\<lambda>w. satisfied w (info s)) (pending s),
             trace := trace s @ Emit Change # notices (info s) (listeners s)\<rparr>"
proof -
  let ?s = "s\<lparr>trace := trace s @ [Emit Change]\<rparr>"
  have "listeners ?s = [] @ listeners s" "distinct (map wid (pending_of ([] @ listeners s)))"
    using assms by (simp_all add: pending_def)
  from fold_invoke [OF this] show ?thesis by (simp add: emit_change_def pending_def)
qed

lemma update_resume_distinct:
  assumes "distinct (map wid (pending s))" "f \<noteq> info s"
  shows "\<exists>r ps. update_resume (Inr f) s =
           (r, s\<lparr>info := f, listeners := survivors f (listeners s),
                 microtasks := microtasks s @ filter (\<lambda>w. satisfied w f) (pending s),
                 trace := trace s @ Emit Change # notices f (listeners s) @ ps\<rparr>)
           \<and> filter is_notice ps = []"
proof -
  from assms(2) have d: "stringify f \<noteq> stringify (info s)" using stringify_inj by blast
  have p: "pending (s\<lparr>info := f\<rparr>) = pending s" by (simp add: pending_def)
  note e = emit_change_distinct [of "s\<lparr>info := f\<rparr>", unfolded p, OF assms(1)]
  have n: "filter is_notice (map (\<lambda>i. Notified i Panic) xs) = []" for xs :: "nat list"
    by (induction xs) simp_all
  show ?thesis
  proof (cases "property (Some f) ''panicked''")
    case (Inl err)
    then have "update_resume (Inr f) s =
           (Inl err, s\<lparr>info := f, listeners := survivors f (listeners s),
                 microtasks := microtasks s @ filter (\<lambda>w. satisfied w f) (pending s),
                 trace := trace s @ Emit Change # notices f (listeners s) @ []\<rparr>)"
      using d by (simp add: update_resume_def e)
    moreover have "filter is_notice [] = []" by simp
    ultimately show ?thesis by blast
  next
    case (Inr v)
    show ?thesis
    proof (cases "truthy v")
      case True
      then have "update_resume (Inr f) s =
           (Inr (), s\<lparr>info := f, listeners := survivors f (listeners s),
                 microtasks := microtasks s @ filter (\<lambda>w. satisfied w f) (pending s),
                 trace := trace s @ Emit Change # notices f (listeners s) @
                   (Emit Panic # map (\<lambda>i. Notified i Panic) (panicObservers s))\<rparr>)"
        using d Inr by (simp add: update_resume_def e emit_panic_def)
      moreover have "filter is_notice (Emit Panic # map (\<lambda>i. Notified i Panic) (panicObservers s)) = []"
        using n by simp
      ultimately show ?thesis by blast
    next
      case False
      then have "update_resume (Inr f) s =
           (Inr (), s\<lparr>info := f, listeners := survivors f (listeners s),
                 microtasks := microtasks s @ filter (\<lambda>w. satisfied w f) (pending s),
                 trace := trace s @ Emit Change # notices f (listeners s) @ []\<rparr>)"
        using d Inr by (simp add: update_resume_def e)
      moreover have "filter is_notice [] = []" by simp
      ultimately show ?thesis by blast
    qed
  qed
qed

text \<open>What a refresh that delivers a different snapshot does to the waiters.\<close>

lemma refreshed_view:
  assumes "distinct (map wid (pending s))" "f \<noteq> info s"
  defines "s' \<equiv> snd (update_resume (Inr f) s)"
  shows "info s' = f" "nextWaiter s' = nextWaiter s"
    "pending s' = filter (\<lambda>w. \<not> satisfied w f) (pending s)"
    "Resolved n \<in> set (trace s') \<longleftrightarrow>
       Resolved n \<in> set (trace s) \<or> (\<exists>w\<in>set (pending s). satisfied w f \<and> wid w = n)"
proof -
  from update_resume_distinct [OF assms(1,2)] obtain r ps where
    u: "update_resume (Inr f) s =
           (r, s\<lparr>info := f, listeners := survivors f (listeners s),
                 microtasks := microtasks s @ filter (\<lambda>w. satisfied w f) (pending s),
                 trace := trace s @ Emit Change # notices f (listeners s) @ ps\<rparr>)"
    and n: "filter is_notice ps = []" by blast
  have "Resolved n \<notin> set ps" using n resolved_is_notice [of n ps] by simp
  then show "info s' = f" "nextWaiter s' = nextWaiter s"
    "pending s' = filter (\<lambda>w. \<not> satisfied w f) (pending s)"
    "Resolved n \<in> set (trace s') \<longleftrightarrow>
       Resolved n \<in> set (trace s) \<or> (\<exists>w\<in>set (pending s). satisfied w f \<and> wid w = n)"
    unfolding s'_def u by (auto simp: pending_def survivors_pending notices_resolved)
qed

lemma refreshed_sound:
  assumes "sound s"
  shows "sound (snd (update_resume r s))"
proof (cases r)
  case (Inl e)
  with assms show ?thesis by (simp add: update_resume_failed)
next
  case (Inr f)
  show ?thesis
  proof (cases "f = info s")
    case True
    with assms Inr show ?thesis by (simp add: update_resume_same)
  next
    case False
    from assms have d: "distinct (map wid (pending s))" by (simp add: sound_iff)
    note v = refreshed_view [OF d False]
    have "distinct (map wid (filter (\<lambda>w. \<not> satisfied w f) (pending s)))"
      using d by (simp add: distinct_map_filter)
    moreover have "\<forall>w\<in>set (filter (\<lambda>w. \<not> satisfied w f) (pending s)).
        wid w < nextWaiter s \<and> \<not> satisfied w f \<and>
        \<not> (Resolved (wid w) \<in> set (trace s) \<or> (\<exists>v\<in>set (pending s). satisfied v f \<and> wid v = wid w))"
    proof
      fix w assume w: "w \<in> set (filter (\<lambda>w. \<not> satisfied w f) (pending s))"
      then have p: "w \<in> set (pending s)" and u: "\<not> satisfied w f" by simp_all
      have "v = w" if "v \<in> set (pending s)" "wid v = wid w" for v
        using that p d by (meson distinct_map inj_onD)
      with u have "\<not> (\<exists>v\<in>set (pending s). satisfied v f \<and> wid v = wid w)" by blast
      with p u assms show "wid w < nextWaiter s \<and> \<not> satisfied w f \<and>
        \<not> (Resolved (wid w) \<in> set (trace s) \<or> (\<exists>v\<in>set (pending s). satisfied v f \<and> wid v = wid w))"
        by (simp add: sound_iff)
    qed
    moreover have "\<forall>i. (Resolved i \<in> set (trace s) \<or> (\<exists>w\<in>set (pending s). satisfied w f \<and> wid w = i))
        \<longrightarrow> i < nextWaiter s"
      using assms by (auto simp: sound_iff)
    ultimately show ?thesis unfolding Inr sound_iff v by blast
  qed
qed

text \<open>What a call of \<^verbatim>\<open>_waitFor\<close> does to the waiters.\<close>

lemma waitFor_view:
  defines "w \<equiv> (\<lambda>s cb p. \<lparr>wid = nextWaiter s, callback = cb, purpose = p\<rparr>)"
  shows "info (snd (waitFor cb p s)) = info s"
    "nextWaiter (snd (waitFor cb p s)) = Suc (nextWaiter s)"
    "satisfied (w s cb p) (info s) \<Longrightarrow> pending (snd (waitFor cb p s)) = pending s"
    "satisfied (w s cb p) (info s) \<Longrightarrow> trace (snd (waitFor cb p s)) = trace s @ [Resolved (nextWaiter s)]"
    "satisfied (w s cb p) (info s) \<Longrightarrow> microtasks (snd (waitFor cb p s)) = microtasks s @ [w s cb p]"
    "\<not> satisfied (w s cb p) (info s) \<Longrightarrow> pending (snd (waitFor cb p s)) = pending s @ [w s cb p]"
    "\<not> satisfied (w s cb p) (info s) \<Longrightarrow> trace (snd (waitFor cb p s)) = trace s"
    "\<not> satisfied (w s cb p) (info s) \<Longrightarrow> microtasks (snd (waitFor cb p s)) = microtasks s"
proof -
  let ?w = "\<lparr>wid = nextWaiter s, callback = cb, purpose = p\<rparr>"
  let ?s1 = "on (Waiter ?w) (s\<lparr>nextWaiter := Suc (nextWaiter s)\<rparr>)"
  have s1: "listeners ?s1 = listeners s @ [Waiter ?w]" "info ?s1 = info s"
    "nextWaiter ?s1 = Suc (nextWaiter s)" "trace ?s1 = trace s" "microtasks ?s1 = microtasks s"
    by (simp_all add: on_def manageUpdates_def Let_def)
  have wf: "snd (waitFor cb p s) = change ?w ?s1" by (simp add: waitFor_def Let_def)
  have sat: "change ?w ?s1 = resolve ?w (removeListener (Waiter ?w) ?s1)" if "satisfied ?w (info s)"
    using that s1 by (simp add: change_satisfied)
  have rm: "listeners (removeListener (Waiter ?w) ?s1) = listeners s"
    unfolding removeListener_def using s1(1) by (simp add: drop_last_snoc)
  have unsat: "change ?w ?s1 = ?s1" if "\<not> satisfied ?w (info s)"
    using that s1 by (simp add: change_unsatisfied)
  show "info (snd (waitFor cb p s)) = info s"
    "nextWaiter (snd (waitFor cb p s)) = Suc (nextWaiter s)"
    using change_frame [of ?w ?s1] s1 unfolding wf by auto
  show "satisfied (w s cb p) (info s) \<Longrightarrow> pending (snd (waitFor cb p s)) = pending s"
    "satisfied (w s cb p) (info s) \<Longrightarrow> trace (snd (waitFor cb p s)) = trace s @ [Resolved (nextWaiter s)]"
    "satisfied (w s cb p) (info s) \<Longrightarrow> microtasks (snd (waitFor cb p s)) = microtasks s @ [w s cb p]"
    unfolding w_def wf using sat rm s1
    by (simp_all add: resolve_def pending_def removeListener_def)
  show "\<not> satisfied (w s cb p) (info s) \<Longrightarrow> pending (snd (waitFor cb p s)) = pending s @ [w s cb p]"
    "\<not> satisfied (w s cb p) (info s) \<Longrightarrow> trace (snd (waitFor cb p s)) = trace s"
    "\<not> satisfied (w s cb p) (info s) \<Longrightarrow> microtasks (snd (waitFor cb p s)) = microtasks s"
    unfolding w_def wf using unsat s1 by (simp_all add: pending_def)
qed

lemma waitFor_listeners:
  defines "w \<equiv> (\<lambda>s cb p. \<lparr>wid = nextWaiter s, callback = cb, purpose = p\<rparr>)"
  shows "satisfied (w s cb p) (info s) \<Longrightarrow> listeners (snd (waitFor cb p s)) = listeners s"
    "\<not> satisfied (w s cb p) (info s)
       \<Longrightarrow> listeners (snd (waitFor cb p s)) = listeners s @ [Waiter (w s cb p)]"
proof -
  let ?w = "\<lparr>wid = nextWaiter s, callback = cb, purpose = p\<rparr>"
  let ?A = "on (Waiter ?w) (s\<lparr>nextWaiter := Suc (nextWaiter s)\<rparr>)"
  have a: "listeners ?A = listeners s @ [Waiter ?w]" "info ?A = info s"
    by (simp_all add: on_def manageUpdates_def Let_def)
  have wf: "snd (waitFor cb p s) = change ?w ?A" by (simp add: waitFor_def Let_def)
  have rm: "listeners (removeListener (Waiter ?w) ?A) = listeners s"
    unfolding removeListener_def using a(1) by (simp add: drop_last_snoc)
  show "satisfied (w s cb p) (info s) \<Longrightarrow> listeners (snd (waitFor cb p s)) = listeners s"
    unfolding w_def wf using a(2) rm by (simp add: change_satisfied resolve_def)
  show "\<not> satisfied (w s cb p) (info s)
       \<Longrightarrow> listeners (snd (waitFor cb p s)) = listeners s @ [Waiter (w s cb p)]"
    unfolding w_def wf using a by (simp add: change_unsatisfied)
qed

lemma waitFor_tasks:
  "tasks (snd (waitFor cb p s)) = (if updating s then tasks s else tasks s @ [Scheduled])"
  "ident (snd (waitFor cb p s)) = ident s"
  by (simp_all add: waitFor_def on_def manageUpdates_def Let_def)

lemma alike_sym: "alike s s' \<Longrightarrow> alike s' s"
  by (simp add: alike_def)

lemma alike_tasks_update [simp]: "alike s (s\<lparr>tasks := ts\<rparr>)"
  by (simp add: alike_def pending_def)

lemma microtasks_on [simp]: "microtasks (on l s) = microtasks s"
  by (simp add: on_def manageUpdates_def Let_def)

lemma microtasks_on_panic [simp]: "microtasks (on_panic i s) = microtasks s"
  by (simp add: on_panic_def manageUpdates_def Let_def)

lemma microtasks_removeListener [simp]: "microtasks (removeListener l s) = microtasks s"
  by (simp add: removeListener_def)

lemma microtasks_command [simp]: "microtasks (snd (command (fetch ep opts r s))) = microtasks s"
  by (cases r) (simp_all add: command_def fetch_def request_def)

lemma microtasks_task_begin [simp]: "microtasks (task_begin i s) = microtasks s"
  by (simp add: task_begin_def request_def)

lemma microtasks_task_slept [simp]: "microtasks (task_slept i s) = microtasks s"
  by (simp add: task_slept_def request_def)

lemma waitFor_sound:
  assumes "sound s"
  shows "sound (snd (waitFor cb p s))"
proof -
  let ?w = "\<lparr>wid = nextWaiter s, callback = cb, purpose = p\<rparr>"
  note v = waitFor_view [where cb = cb and p = p and s = s]
  have fresh: "Resolved (nextWaiter s) \<notin> set (trace s)"
    "\<forall>w\<in>set (pending s). wid w \<noteq> nextWaiter s"
    using assms by (auto simp: sound_iff)
  show ?thesis
  proof (cases "satisfied ?w (info s)")
    case True
    then show ?thesis
      using assms unfolding sound_iff v(1,2) v(3) [OF True] v(4) [OF True]
      by (auto simp: less_Suc_eq)
  next
    case False
    then show ?thesis
      using assms fresh unfolding sound_iff v(1,2) v(6) [OF False] v(7) [OF False]
      by (auto simp: less_Suc_eq)
  qed
qed

text \<open>
  Every event is of one of three kinds: it leaves the waiters alone; it is a call of
  \<^verbatim>\<open>_waitFor\<close>; or it completes a refresh with a snapshot that differs from the
  cached one.
\<close>

lemma act_kinds:
  "(alike s (act e s) \<and> microtasks (act e s) = microtasks s
      \<and> (\<forall>f. completes e s = Some f \<longrightarrow> f = info s)) \<or>
   (\<exists>cb p. act e s = snd (waitFor cb p s) \<and> completes e s = None) \<or>
   (\<exists>f s0. completes e s = Some f \<and> f \<noteq> info s \<and> alike s s0 \<and> microtasks s0 = microtasks s
      \<and> alike (snd (update_resume (Inr f) s0)) (act e s)
      \<and> microtasks (act e s) = microtasks (snd (update_resume (Inr f) s0)))"
proof (cases e)
  case (Listen g i)
  then show ?thesis by (cases g) simp_all
next
  case (Unlisten i)
  then show ?thesis by simp
next
  case (WaitFor cb)
  then show ?thesis by auto
next
  case (WaitForState t)
  then show ?thesis by (auto simp: waitForState_def)
next
  case FinishRestore
  then show ?thesis by (auto simp: finishRestore_def)
next
  case Hypervisor
  then show ?thesis by (auto simp: hypervisor_def)
next
  case AgentCall
  then show ?thesis by (auto simp: agent_def)
next
  case (Refresh r)
  let ?s0 = "request [] Default s"
  have i: "info ?s0 = info s" and m: "microtasks ?s0 = microtasks s" by (simp_all add: request_def)
  show ?thesis
  proof (cases r)
    case (Inl err)
    with Refresh m show ?thesis by (simp add: update_def update_resume_failed)
  next
    case (Inr f)
    show ?thesis
    proof (cases "f = info s")
      case True
      then have "update_resume (Inr f) ?s0 = (Inr (), ?s0)"
        using update_resume_same [of ?s0] i by simp
      with Refresh Inr True m show ?thesis by (simp add: update_def)
    next
      case False
      have "completes e s = Some f \<and> f \<noteq> info s \<and> alike s ?s0 \<and> microtasks ?s0 = microtasks s
          \<and> alike (snd (update_resume (Inr f) ?s0)) (act e s)
          \<and> microtasks (act e s) = microtasks (snd (update_resume (Inr f) ?s0))"
        using Refresh Inr False m by (simp add: update_def)
      then show ?thesis by blast
    qed
  qed
next
  case (Rename n r)
  then show ?thesis by (simp add: rename_def)
next
  case (Start r)
  then show ?thesis by (simp add: start_def)
next
  case (Stop r)
  then show ?thesis by (simp add: stop_def)
next
  case (Reboot r)
  then show ?thesis by (simp add: reboot_def)
next
  case (Destroy r)
  then show ?thesis by (simp add: destroy_def)
next
  case (Tick i)
  then show ?thesis by simp
next
  case (Fetched n r)
  show ?thesis
  proof (cases "n < length (tasks s) \<and> tasks s ! n = Fetching")
    case False
    then have "act e s = s" "completes e s = None"
      using Fetched by (cases r; auto simp: task_fetched_def)+
    then show ?thesis by simp
  next
    case True
    then have ph: "task_fetched n r s = (snd (update_resume r s))\<lparr>tasks := (tasks s)[n :=
              (case fst (update_resume r s) of Inl e \<Rightarrow> Crashed | Inr u \<Rightarrow> Sleeping)]\<rparr>"
      by (intro task_fetched_phase) simp_all
    show ?thesis
    proof (cases r)
      case (Inl err)
      with Fetched ph show ?thesis by (simp add: update_resume_failed)
    next
      case (Inr f)
      show ?thesis
      proof (cases "f = info s")
        case True
        with Fetched Inr ph show ?thesis by (simp add: update_resume_same)
      next
        case False
        have "completes e s = Some f \<and> f \<noteq> info s \<and> alike s s \<and> microtasks s = microtasks s
          \<and> alike (snd (update_resume (Inr f) s)) (act e s)
          \<and> microtasks (act e s) = microtasks (snd (update_resume (Inr f) s))"
          using Fetched Inr False True ph by simp
        then show ?thesis by blast
      qed
    qed
  qed
next
  case (Slept i)
  then show ?thesis by simp
next
  case (Inactive k)
  have "microtasks (act (Inactive k) s) = microtasks s" by (cases k) simp_all
  with Inactive show ?thesis by simp
qed

lemma act_sound:
  assumes "sound s"
  shows "sound (act e s)"
  using act_kinds [of s e]
proof (elim disjE exE conjE)
  assume "alike s (act e s)"
  with assms show ?thesis by (simp add: alike_sound)
next
  fix cb p assume "act e s = snd (waitFor cb p s)"
  with assms show ?thesis by (simp add: waitFor_sound)
next
  fix f s0
  assume a: "alike s s0" "alike (snd (update_resume (Inr f) s0)) (act e s)"
  from a(1) assms have "sound s0" by (simp add: alike_sound)
  then have "sound (snd (update_resume (Inr f) s0))" by (rule refreshed_sound)
  with a(2) show ?thesis by (simp add: alike_sound)
qed

lemma step_consistent:
  assumes "consistent s"
  shows "consistent (step e s)"
proof -
  from assms have "sound (act e s)" by (simp add: consistent_def act_sound)
  then have "sound (drain (act e s))" using alike_sound [OF alike_drain] by simp
  then show ?thesis by (simp add: consistent_def step_def)
qed

lemma run_consistent:
  "consistent s \<Longrightarrow> consistent (run es s)"
  unfolding run_def by (induction es arbitrary: s) (simp_all add: step_consistent)

lemma Instance_consistent:
  assumes "Instance a i = Inr s"
  shows "consistent s"
  using assms
  by (auto simp: Instance_def consistent_def sound_def pending_def split: sum.splits)

text \<open>
  A pending waiter through one event: it is resolved when the event completes a
  refresh whose snapshot satisfies its callback, and it stays pending otherwise.
\<close>

lemma act_resolves:
  assumes "sound s" "w \<in> set (pending s)"
  shows "if (\<exists>f. completes e s = Some f \<and> satisfied w f)
         then Resolved (wid w) \<in> set (trace (act e s)) \<and> w \<notin> set (pending (act e s))
         else w \<in> set (pending (act e s)) \<and> Resolved (wid w) \<notin> set (trace (act e s))"
proof -
  from assms have u: "\<not> satisfied w (info s)" and n: "Resolved (wid w) \<notin> set (trace s)"
    and d: "distinct (map wid (pending s))"
    by (simp_all add: sound_iff)
  have later: "w \<in> set (pending (act e s)) \<Longrightarrow> Resolved (wid w) \<notin> set (trace (act e s))"
    using act_sound [OF assms(1), of e] by (simp add: sound_iff)
  from act_kinds [of s e] show ?thesis
  proof (elim disjE exE conjE)
    assume a: "alike s (act e s)" "\<forall>f. completes e s = Some f \<longrightarrow> f = info s"
    from a(2) u have "\<not> (\<exists>f. completes e s = Some f \<and> satisfied w f)" by auto
    moreover have "w \<in> set (pending (act e s))" using a(1) assms(2) by (simp add: alike_def)
    ultimately show ?thesis using later by simp
  next
    fix cb p assume a: "act e s = snd (waitFor cb p s)" "completes e s = None"
    let ?w = "\<lparr>wid = nextWaiter s, callback = cb, purpose = p\<rparr>"
    have "w \<in> set (pending (snd (waitFor cb p s)))"
      using waitFor_view(3,6) [where cb = cb and p = p and s = s] assms(2) by (cases "satisfied ?w (info s)") simp_all
    with a later show ?thesis by simp
  next
    fix f s0
    assume a: "completes e s = Some f" "f \<noteq> info s" "alike s s0"
      "alike (snd (update_resume (Inr f) s0)) (act e s)"
    let ?s1 = "snd (update_resume (Inr f) s0)"
    from a(3) d a(2) have d0: "distinct (map wid (pending s0))" and f0: "f \<noteq> info s0"
      and p0: "pending s0 = pending s" by (simp_all add: alike_def)
    note v = refreshed_view [OF d0 f0]
    show ?thesis
    proof (cases "satisfied w f")
      case True
      have "Resolved (wid w) \<in> set (trace ?s1)" using v(4) [of "wid w"] True assms(2) p0 by auto
      then have "Resolved (wid w) \<in> set (trace (act e s))"
        using alike_resolved [OF a(4)] by simp
      moreover have "w \<notin> set (pending ?s1)" using v(3) True by simp
      then have "w \<notin> set (pending (act e s))" using a(4) by (simp add: alike_def)
      ultimately show ?thesis using a(1) True by auto
    next
      case False
      have "w \<in> set (pending ?s1)" using v(3) False assms(2) p0 by simp
      then have "w \<in> set (pending (act e s))" using a(4) by (simp add: alike_def)
      with later a(1) False show ?thesis by auto
    qed
  qed
qed

lemma step_resolves:
  assumes "consistent s" "w \<in> set (pending s)"
  shows "if (\<exists>f. completes e s = Some f \<and> satisfied w f)
         then Resolved (wid w) \<in> set (trace (step e s)) \<and> w \<notin> set (pending (step e s))
         else w \<in> set (pending (step e s)) \<and> Resolved (wid w) \<notin> set (trace (step e s))"
proof -
  from assms(1) have "sound s" by (simp add: consistent_def)
  from act_resolves [OF this assms(2), of e] show ?thesis
    unfolding step_def using alike_resolved [OF alike_drain, of "wid w" "act e s"]
      alike_pending [OF alike_drain, of "act e s"] by simp
qed

lemma step_keeps_resolved:
  "Resolved n \<in> set (trace s) \<Longrightarrow> Resolved n \<in> set (trace (step e s))"
proof -
  assume r: "Resolved n \<in> set (trace s)"
  have "Resolved n \<in> set (trace (act e s))"
    using act_kinds [of s e]
  proof (elim disjE exE conjE)
    assume "alike s (act e s)"
    with r show ?thesis by (simp add: alike_resolved)
  next
    fix cb p assume a: "act e s = snd (waitFor cb p s)"
    let ?w = "\<lparr>wid = nextWaiter s, callback = cb, purpose = p\<rparr>"
    show ?thesis unfolding a
      using waitFor_view(4,7) [where cb = cb and p = p and s = s] r by (cases "satisfied ?w (info s)") simp_all
  next
    fix f s0
    assume a: "alike s s0" "alike (snd (update_resume (Inr f) s0)) (act e s)"
    from a(1) r have r0: "Resolved n \<in> set (trace s0)" by (simp add: alike_resolved)
    have "Resolved n \<in> set (trace (snd (update_resume (Inr f) s0)))"
    proof (cases "f = info s0")
      case True
      with r0 show ?thesis by (simp add: update_resume_same)
    next
      case False
      from update_resume_changed [OF False] r0 show ?thesis by auto
    qed
    with a(2) show ?thesis by (simp add: alike_resolved)
  qed
  then show ?thesis unfolding step_def using alike_resolved [OF alike_drain, of n "act e s"] by simp
qed

lemma run_keeps_resolved:
  "Resolved n \<in> set (trace s) \<Longrightarrow> Resolved n \<in> set (trace (run es s))"
  unfolding run_def by (induction es arbitrary: s) (simp_all add: step_keeps_resolved)

subsection \<open>Waiting for a state\<close>

lemma satisfied_state_is:
  "callback w = state_is t \<Longrightarrow> satisfied w f = has_state t f"
  by (cases "property (Some f) ''state''") (simp_all add: satisfied_def state_is_def has_state_def)

lemma arrives_iff: "arrives t e s \<longleftrightarrow> (\<exists>f. completes e s = Some f \<and> has_state t f)"
  by (cases "completes e s") (simp_all add: arrives_def)

lemma resolved_iff_arrived:
  assumes "consistent s" "w \<in> set (pending s)" "callback w = state_is t"
  shows "Resolved (wid w) \<in> set (trace (run es s)) \<longleftrightarrow> arrived t es s"
  using assms(1,2)
proof (induction es arbitrary: s)
  case Nil
  then show ?case by (simp add: run_def consistent_def sound_iff)
next
  case (Cons e es)
  have r: "run (e # es) s = run es (step e s)" by (simp add: run_def)
  note st = step_resolves [OF Cons.prems, of e]
  show ?case
  proof (cases "arrives t e s")
    case True
    then have "\<exists>f. completes e s = Some f \<and> satisfied w f"
      by (simp add: arrives_iff satisfied_state_is [OF assms(3)])
    with st have "Resolved (wid w) \<in> set (trace (step e s))" by simp
    then have "Resolved (wid w) \<in> set (trace (run es (step e s)))" by (rule run_keeps_resolved)
    with True r show ?thesis by simp
  next
    case False
    then have "\<not> (\<exists>f. completes e s = Some f \<and> satisfied w f)"
      by (simp add: arrives_iff satisfied_state_is [OF assms(3)])
    with st have "w \<in> set (pending (step e s))" by simp
    moreover have "consistent (step e s)" using Cons.prems(1) by (rule step_consistent)
    ultimately have "Resolved (wid w) \<in> set (trace (run es (step e s))) \<longleftrightarrow> arrived t es (step e s)"
      by (rule Cons.IH [rotated])
    with False r show ?thesis by simp
  qed
qed

lemma drain_plain:
  assumes "microtasks s = [w]" "purpose w = Plain"
  shows "drain s = s\<lparr>microtasks := []\<rparr>"
  using assms by (simp add: drain_def continue_def)

lemma step_waitFor_satisfied:
  assumes "consistent s" "satisfied \<lparr>wid = nextWaiter s, callback = cb, purpose = Plain\<rparr> (info s)"
  shows "trace (drain (snd (waitFor cb Plain s))) = trace s @ [Resolved (nextWaiter s)]"
proof -
  let ?w = "\<lparr>wid = nextWaiter s, callback = cb, purpose = Plain\<rparr>"
  note v = waitFor_view(4,5) [where cb = cb and p = Plain and s = s, OF assms(2)]
  from assms(1) v(2) have "microtasks (snd (waitFor cb Plain s)) = [?w]"
    by (simp add: consistent_def)
  then have "drain (snd (waitFor cb Plain s)) = (snd (waitFor cb Plain s))\<lparr>microtasks := []\<rparr>"
    by (rule drain_plain) simp
  with v(1) show ?thesis by simp
qed

lemma step_waitFor_unsatisfied:
  assumes "consistent s" "\<not> satisfied \<lparr>wid = nextWaiter s, callback = cb, purpose = Plain\<rparr> (info s)"
  shows "drain (snd (waitFor cb Plain s)) = snd (waitFor cb Plain s)"
    "pending (snd (waitFor cb Plain s))
       = pending s @ [\<lparr>wid = nextWaiter s, callback = cb, purpose = Plain\<rparr>]"
    "trace (snd (waitFor cb Plain s)) = trace s"
proof -
  note v = waitFor_view(6,7,8) [where cb = cb and p = Plain and s = s, OF assms(2)]
  from assms(1) v(3) have "microtasks (snd (waitFor cb Plain s)) = []"
    by (simp add: consistent_def)
  then show "drain (snd (waitFor cb Plain s)) = snd (waitFor cb Plain s)" by (rule drain_idle)
  show "pending (snd (waitFor cb Plain s))
       = pending s @ [\<lparr>wid = nextWaiter s, callback = cb, purpose = Plain\<rparr>]"
    "trace (snd (waitFor cb Plain s)) = trace s"
    using v by simp_all
qed

section \<open>Refreshing\<close>

text \<open>
  C1 (as the specification states it) fails: \<open>update\<close> compares serialisations, and
  two snapshots with the same fields in a different key order serialise differently.
  Here the cached snapshot is replaced and one \<^verbatim>\<open>change\<close> is emitted although
  the fetched snapshot is structurally equal to the cached one.
\<close>

theorem update_key_order_counterexample:
  "struct_eq snapshot_off_reordered (info handle_off) \<and>
   info (snd (update (Inr snapshot_off_reordered) handle_off)) = snapshot_off_reordered \<and>
   snapshot_off_reordered \<noteq> info handle_off \<and>
   trace (snd (update (Inr snapshot_off_reordered) handle_off))
     = [Request ''/instances/i1'' Default, Emit Change]"
  by (simp add: update_def update_resume_def request_def emit_change_def template_def
      handle_off_def snapshot_off_def snapshot_off_reordered_def quote_def escape_def insert_commute)

text \<open>
  C1 (amended). A refresh replaces the cached snapshot and emits exactly one
  \<^verbatim>\<open>change\<close> if and only if the fetched snapshot differs from the cached one as a
  serialised value, that is in some value or in the order of the keys of some object;
  when the two are the same, keys in the same order, nothing is replaced and nothing is
  emitted. A refresh whose fetch fails replaces nothing and emits nothing.
\<close>

theorem update_replaces_on_difference:
  "(f \<noteq> info s \<longrightarrow>
      info (snd (update (Inr f) s)) = f \<and>
      count_list (trace (snd (update (Inr f) s))) (Emit Change)
        = Suc (count_list (trace s) (Emit Change))) \<and>
   (f = info s \<longrightarrow>
      info (snd (update (Inr f) s)) = info s \<and>
      count_list (trace (snd (update (Inr f) s))) (Emit Change)
        = count_list (trace s) (Emit Change)) \<and>
   info (snd (update (Inl e) s)) = info s \<and>
   count_list (trace (snd (update (Inl e) s))) (Emit Change) = count_list (trace s) (Emit Change)"
proof (cases "f = info s")
  case True
  then show ?thesis
    using update_resume_same [of "request [] Default s"]
    by (simp add: update_def update_resume_failed) (simp add: request_def)
next
  case False
  let ?s = "request [] Default s"
  have i: "info ?s = info s" and t: "trace ?s = trace s @ [Request (''/instances/'' @ template (ident s)) Default]"
    and p: "panicObservers ?s = panicObservers s"
    by (simp_all add: request_def)
  from False i have "f \<noteq> info ?s" by simp
  from update_resume_changed [OF this] obtain ls ms ns r where
    u: "update_resume (Inr f) ?s = (r, ?s\<lparr>info := f, listeners := ls, microtasks := ms,
            trace := trace ?s @ Emit Change # ns @
              (if panicked f then Emit Panic # map (\<lambda>i. Notified i Panic) (panicObservers ?s)
               else [])\<rparr>)" and n: "list_all is_notice ns" by blast
  from n have "count_list ns (Emit Change) = 0" by (rule count_notices)
  with False show ?thesis
    by (simp add: update_def u t count_notified update_resume_failed) (simp add: request_def)
qed

theorem update_replaces_on_difference_witness:
  "info (snd (update (Inr snapshot_on) handle_off)) = snapshot_on \<and>
   count_list (trace (snd (update (Inr snapshot_on) handle_off))) (Emit Change) = 1 \<and>
   info (snd (update (Inr snapshot_off) handle_off)) = snapshot_off \<and>
   count_list (trace (snd (update (Inr snapshot_off) handle_off))) (Emit Change) = 0"
  using update_replaces_on_difference [of snapshot_on handle_off RemoteFailure]
    update_replaces_on_difference [of snapshot_off handle_off RemoteFailure]
  by (simp add: handle_off_def snapshot_on_def snapshot_off_def)

text \<open>
  C8 (as stated) fails: after a first refresh the cached snapshot is panicked; a second
  refresh fetches a snapshot that is panicked too and differs in another field, and
  \<^verbatim>\<open>panic\<close> is emitted again.
\<close>

theorem panic_repeated_counterexample:
  "panicked (snapshot_panicked ''a'') \<and> panicked (snapshot_panicked ''b'') \<and>
   info (run [Refresh (Inr (snapshot_panicked ''a''))] handle_off) = snapshot_panicked ''a'' \<and>
   trace (run [Refresh (Inr (snapshot_panicked ''a'')), Refresh (Inr (snapshot_panicked ''b''))]
            handle_off)
     = [Request ''/instances/i1'' Default, Emit Change, Emit Panic,
        Request ''/instances/i1'' Default, Emit Change, Emit Panic]"
  by (simp add: evals panicked_def snapshot_panicked_def quote_def escape_def)

text \<open>
  C8 (amended). A refresh emits \<^verbatim>\<open>panic\<close> exactly when it detects a change and the
  \<^verbatim>\<open>panicked\<close> field of the fetched snapshot is truthy, whether or not the
  previous snapshot was panicked already; it emits it once.
\<close>

theorem panic_on_changed_and_panicked:
  "count_list (trace (snd (update r s))) (Emit Panic) =
     count_list (trace s) (Emit Panic) +
       (case r of Inl e \<Rightarrow> 0 | Inr f \<Rightarrow> if f \<noteq> info s \<and> panicked f then 1 else 0)"
proof (cases r)
  case (Inl e)
  then show ?thesis by (simp add: update_def update_resume_failed request_def)
next
  case (Inr f)
  let ?s = "request [] Default s"
  have i: "info ?s = info s"
    and t: "trace ?s = trace s @ [Request (''/instances/'' @ template (ident s)) Default]"
    by (simp_all add: request_def)
  show ?thesis
  proof (cases "f = info s")
    case True
    then show ?thesis
      using update_resume_same [of ?s] Inr by (simp add: update_def i) (simp add: request_def)
  next
    case False
    with i have "f \<noteq> info ?s" by simp
    from update_resume_changed [OF this] obtain ls ms ns r' where
      u: "update_resume (Inr f) ?s = (r', ?s\<lparr>info := f, listeners := ls, microtasks := ms,
            trace := trace ?s @ Emit Change # ns @
              (if panicked f then Emit Panic # map (\<lambda>i. Notified i Panic) (panicObservers ?s)
               else [])\<rparr>)" and n: "list_all is_notice ns" by blast
    from n have "count_list ns (Emit Panic) = 0" by (rule count_notices)
    with False Inr show ?thesis by (simp add: update_def u t count_notified)
  qed
qed

theorem panic_on_changed_and_panicked_witness:
  "count_list (trace (snd (update (Inr (snapshot_panicked ''a'')) handle_off))) (Emit Panic) = 1 \<and>
   count_list (trace (snd (update (Inr snapshot_on) handle_off))) (Emit Panic) = 0"
  using panic_on_changed_and_panicked [of "Inr (snapshot_panicked ''a'')" handle_off]
    panic_on_changed_and_panicked [of "Inr snapshot_on" handle_off]
  by (simp add: handle_off_def snapshot_on_def snapshot_off_def snapshot_panicked_def panicked_def)

section \<open>Polling\<close>

text \<open>
  C3. The claim is right and the code misses it: two listeners registered before the
  queued callback has run find the flag clear, so two polling tasks are queued; both
  run, and each keeps fetching.
\<close>

theorem two_polling_tasks:
  "tasks (run [Listen Change 1, Listen Change 2] handle_off) = [Scheduled, Scheduled] \<and>
   tasks (run [Listen Change 1, Listen Change 2, Tick 0, Tick 1] handle_off)
     = [Fetching, Fetching] \<and>
   trace (run [Listen Change 1, Listen Change 2, Tick 0, Tick 1,
               Fetched 0 (Inr snapshot_off), Fetched 1 (Inr snapshot_off), Slept 0, Slept 1]
            handle_off)
     = [Request ''/instances/i1'' Default, Request ''/instances/i1'' Default,
        Request ''/instances/i1'' Default, Request ''/instances/i1'' Default]"
  by (simp add: evals)

text \<open>
  The way a loop winds down. Removing a listener leaves the polling tasks and the flag
  as they are, and removing the only listener leaves none. Once no listener is left: a
  task that is still queued begins and issues its one fetch; a task that awaits its
  fetch finishes that refresh, and if the refresh succeeds it sleeps, while if the
  refresh throws the task ends there; a task that is sleeping leaves the loop when its
  sleep ends, clearing the flag and issuing no further fetch. A loop that has left by
  its own test has cleared the flag, and the next registration starts a new one.
\<close>

lemma polling_winds_down:
  fixes r :: "error + json"
  assumes "listeners s = []" and "i < length (tasks s)"
  defines "s1 \<equiv> task_fetched i r s"
  shows "tasks (removeListener l s0) = tasks s0 \<and>
         updating (removeListener l s0) = updating s0 \<and>
         (listeners s0 = [l] \<longrightarrow> listenerCount (removeListener l s0) = 0) \<and>
         (tasks s ! i = Scheduled \<longrightarrow>
            tasks (task_begin i s) ! i = Fetching \<and> listeners (task_begin i s) = [] \<and>
            trace (task_begin i s)
              = trace s @ [Request (''/instances/'' @ template (ident s)) Default]) \<and>
         (tasks s ! i = Fetching \<longrightarrow>
            tasks s1 ! i = (case fst (update_resume r s) of Inl e \<Rightarrow> Crashed | Inr u \<Rightarrow> Sleeping) \<and>
            listeners s1 = [] \<and>
            (tasks s1 ! i = Sleeping \<longrightarrow>
               task_slept i s1 = s1\<lparr>updating := False, tasks := (tasks s1)[i := Stopped]\<rparr> \<and>
               rearms l' (task_slept i s1))) \<and>
         (tasks s ! i = Sleeping \<longrightarrow>
            task_slept i s = s\<lparr>updating := False, tasks := (tasks s)[i := Stopped]\<rparr> \<and>
            rearms l' (task_slept i s))"
proof -
  note i = assms(2) and e = assms(1)
  have a: "tasks (removeListener l s0) = tasks s0 \<and>
         updating (removeListener l s0) = updating s0 \<and>
         (listeners s0 = [l] \<longrightarrow> listenerCount (removeListener l s0) = 0)"
    using removeListener_last [of s0 l] by (auto simp: removeListener_def listenerCount_def)
  have q: "tasks (task_begin i s) ! i = Fetching \<and> listeners (task_begin i s) = [] \<and>
            trace (task_begin i s)
              = trace s @ [Request (''/instances/'' @ template (ident s)) Default]"
    if "tasks s ! i = Scheduled"
    using that i e by (simp add: task_begin_def request_def)
  have b: "task_slept i s = s\<lparr>updating := False, tasks := (tasks s)[i := Stopped]\<rparr> \<and>
            rearms l' (task_slept i s)" if "tasks s ! i = Sleeping"
  proof -
    from that i e have "task_slept i s = s\<lparr>updating := False, tasks := (tasks s)[i := Stopped]\<rparr>"
      by (simp add: task_slept_def listenerCount_def)
    then show ?thesis by (simp add: rearms_idle)
  qed
  have c: "tasks s1 ! i = (case fst (update_resume r s) of Inl e \<Rightarrow> Crashed | Inr u \<Rightarrow> Sleeping) \<and>
            listeners s1 = [] \<and>
            (tasks s1 ! i = Sleeping \<longrightarrow>
               task_slept i s1 = s1\<lparr>updating := False, tasks := (tasks s1)[i := Stopped]\<rparr> \<and>
               rearms l' (task_slept i s1))" if f: "tasks s ! i = Fetching"
  proof -
    note p = task_fetched_phase [OF i f, of r, folded s1_def]
    have l1: "listeners s1 = []" using p update_resume_no_listeners [OF e, of r] by simp
    have t1: "tasks s1 ! i = (case fst (update_resume r s) of Inl e \<Rightarrow> Crashed | Inr u \<Rightarrow> Sleeping)"
      using p i by simp
    have i1: "i < length (tasks s1)" using p i by simp
    have "task_slept i s1 = s1\<lparr>updating := False, tasks := (tasks s1)[i := Stopped]\<rparr> \<and>
               rearms l' (task_slept i s1)" if "tasks s1 ! i = Sleeping"
    proof -
      from that i1 l1 have "task_slept i s1 = s1\<lparr>updating := False, tasks := (tasks s1)[i := Stopped]\<rparr>"
        by (simp add: task_slept_def listenerCount_def)
      then show ?thesis by (simp add: rearms_idle)
    qed
    with t1 l1 show ?thesis by blast
  qed
  from a q b c show ?thesis by blast
qed

lemma polling_winds_down_example:
  "listeners (run [Listen Change 1, Tick 0] handle_off) = [Observer 1] \<and>
   tasks (run [Listen Change 1, Tick 0] handle_off) = [Fetching] \<and>
   tasks (run [Listen Change 1, Tick 0, Unlisten 1] handle_off) = [Fetching] \<and>
   listeners (run [Listen Change 1, Tick 0, Unlisten 1] handle_off) = [] \<and>
   tasks (run [Listen Change 1, Tick 0, Unlisten 1, Fetched 0 (Inr snapshot_on)] handle_off)
     = [Sleeping] \<and>
   tasks (task_slept 0 (task_fetched 0 (Inr snapshot_on)
       (run [Listen Change 1, Tick 0, Unlisten 1] handle_off))) = [Stopped] \<and>
   rearms (Observer 2) (task_slept 0 (task_fetched 0 (Inr snapshot_on)
       (run [Listen Change 1, Tick 0, Unlisten 1] handle_off)))"
proof -
  let ?A = "run [Listen Change 1, Tick 0] handle_off"
  let ?B = "run [Listen Change 1, Tick 0, Unlisten 1] handle_off"
  let ?C = "task_fetched 0 (Inr snapshot_on) ?B"
  have a: "listeners ?A = [Observer 1]" "tasks ?A = [Fetching]"
    by (simp_all add: evals)
  have c: "tasks ?B = [Fetching]" and l: "listeners ?B = []"
    by (simp_all add: evals)
  have b: "0 < length (tasks ?B)"
    unfolding c by simp
  have e: "tasks ?C = [Sleeping]"
    by (simp add: evals snapshot_on_def quote_def escape_def)
  have e': "tasks (run [Listen Change 1, Tick 0, Unlisten 1, Fetched 0 (Inr snapshot_on)] handle_off)
     = [Sleeping]"
    by (simp add: evals snapshot_on_def quote_def escape_def)
  note t = polling_winds_down [OF l b, where r = "Inr snapshot_on" and l' = "Observer 2"]
  have f: "tasks ?B ! 0 = Fetching" using c by simp
  have g: "tasks ?C ! 0 = Sleeping" using e by simp
  from t f g have h: "task_slept 0 ?C = ?C\<lparr>updating := False, tasks := (tasks ?C)[0 := Stopped]\<rparr>"
    and k: "rearms (Observer 2) (task_slept 0 ?C)"
    by blast+
  have "tasks (task_slept 0 ?C) = [Stopped]" unfolding h using e by simp
  with a c l e' k show ?thesis by simp
qed

text \<open>
  The other way out of the loop. A refresh that throws ends the task without clearing
  the flag. While the flag is set a registration queues nothing. Once the flag is set
  and every task has ended, no event changes either: no task is queued, and the flag
  stays set.
\<close>

lemma drain_updating: "updating (drain s) = updating s"
  using drain_frame [of s] by auto

lemma waitFor_updating: "updating (snd (waitFor cb p s)) = updating s"
  by (simp add: waitFor_def on_def manageUpdates_def Let_def)

lemma failed_refresh_keeps_flag:
  assumes "i < length (tasks s)" and "tasks s ! i = Fetching"
  shows "task_fetched i (Inl e) s = s\<lparr>tasks := (tasks s)[i := Crashed]\<rparr>"
  using assms by (simp add: task_fetched_def update_resume_def)

lemma flag_blocks_polling:
  assumes "updating s"
  shows "on l s = s\<lparr>listeners := listeners s @ [l]\<rparr> \<and> \<not> rearms l s"
  using assms by (simp add: on_def manageUpdates_def rearms_def)

lemma act_after_crash:
  assumes "updating s" and "list_all (\<lambda>p. p = Crashed \<or> p = Stopped) (tasks s)"
  shows "tasks (act e s) = tasks s \<and> updating (act e s)"
proof (cases e)
  case (Listen g i)
  with assms show ?thesis by (cases g) (simp_all add: on_def on_panic_def manageUpdates_def)
next
  case (Unlisten i)
  with assms show ?thesis by (simp add: removeListener_def)
next
  case (WaitFor cb)
  with assms show ?thesis by (simp add: waitFor_tasks waitFor_updating)
next
  case (WaitForState t)
  with assms show ?thesis by (simp add: waitForState_def waitFor_tasks waitFor_updating)
next
  case FinishRestore
  with assms show ?thesis by (simp add: finishRestore_def waitFor_tasks waitFor_updating)
next
  case Hypervisor
  with assms show ?thesis by (simp add: hypervisor_def waitFor_tasks waitFor_updating)
next
  case AgentCall
  with assms show ?thesis by (simp add: agent_def waitFor_tasks waitFor_updating)
next
  case (Refresh r)
  with assms show ?thesis by (simp add: update_def request_def)
next
  case (Rename n r)
  with assms show ?thesis
    by (simp add: rename_def command_def fetch_def request_def split: sum.splits)
next
  case (Start r)
  with assms show ?thesis
    by (simp add: start_def command_def fetch_def request_def split: sum.splits)
next
  case (Stop r)
  with assms show ?thesis
    by (simp add: stop_def command_def fetch_def request_def split: sum.splits)
next
  case (Reboot r)
  with assms show ?thesis
    by (simp add: reboot_def command_def fetch_def request_def split: sum.splits)
next
  case (Destroy r)
  with assms show ?thesis
    by (simp add: destroy_def command_def fetch_def request_def split: sum.splits)
next
  case (Tick i)
  with assms show ?thesis by (auto simp: task_begin_def list_all_length)
next
  case (Fetched i r)
  with assms show ?thesis by (auto simp: task_fetched_def list_all_length)
next
  case (Slept i)
  with assms show ?thesis by (auto simp: task_slept_def list_all_length)
next
  case (Inactive k)
  with assms show ?thesis by (cases k) simp_all
qed

lemma run_after_crash:
  assumes "updating s" and "list_all (\<lambda>p. p = Crashed \<or> p = Stopped) (tasks s)"
  shows "tasks (run es s) = tasks s \<and> updating (run es s)"
  using assms
proof (induction es arbitrary: s)
  case Nil
  then show ?case by (simp add: run_def)
next
  case (Cons e es)
  have a: "tasks (step e s) = tasks s \<and> updating (step e s)"
    using act_after_crash [OF Cons.prems, of e] by (simp add: step_def drain_updating)
  with Cons.prems have "list_all (\<lambda>p. p = Crashed \<or> p = Stopped) (tasks (step e s))"
    by simp
  with a Cons.IH [of "step e s"] show ?case by (simp add: run_def)
qed

text \<open>
  C5. The claim is right and the code misses it on one path. The loop does end within
  one fetch and one sleep of the removal of the last listener, and not at the removal;
  but it is not always re-armable. Here the only listener is removed while the fetch is
  in flight and the fetch fails: the task ends with the flag still set. The next
  registration of a listener then queues no task, a wait for a state issues no fetch,
  and the only request ever made is the first one. Had the fetch succeeded, the task
  would have slept and left the loop with the flag cleared, and the same registration
  would have queued a new task.
\<close>

theorem polling_not_rearmed_after_failure:
  "tasks (run [Listen Change 1, Tick 0, Unlisten 1] handle_off) = [Fetching] \<and>
   listeners (run [Listen Change 1, Tick 0, Unlisten 1] handle_off) = [] \<and>
   tasks (run [Listen Change 1, Tick 0, Unlisten 1, Fetched 0 (Inl RemoteFailure)] handle_off)
     = [Crashed] \<and>
   updating (run [Listen Change 1, Tick 0, Unlisten 1, Fetched 0 (Inl RemoteFailure)] handle_off) \<and>
   listeners (run [Listen Change 1, Tick 0, Unlisten 1, Fetched 0 (Inl RemoteFailure),
                   Listen Change 2] handle_off) = [Observer 2] \<and>
   tasks (run [Listen Change 1, Tick 0, Unlisten 1, Fetched 0 (Inl RemoteFailure),
               Listen Change 2] handle_off) = [Crashed] \<and>
   trace (run [Listen Change 1, Tick 0, Unlisten 1, Fetched 0 (Inl RemoteFailure),
               Listen Change 2, WaitForState ''on'', Tick 0, Tick 1, Slept 0,
               Fetched 0 (Inr snapshot_on)] handle_off)
     = [Request ''/instances/i1'' Default] \<and>
   tasks (run [Listen Change 1, Tick 0, Unlisten 1, Fetched 0 (Inr snapshot_on), Slept 0,
               Listen Change 2] handle_off) = [Stopped, Scheduled]"
  by (simp add: evals snapshot_on_def quote_def escape_def)

text \<open>
  C10 (as stated) fails: a call made while a polling loop is running finds the flag set
  and schedules nothing. Here the second call, whose predicate holds already, adds no
  task and causes no fetch.
\<close>

theorem waitFor_while_polling_counterexample:
  "tasks (run [WaitForState ''on'', Tick 0] handle_off) = [Fetching] \<and>
   trace (run [WaitForState ''on'', Tick 0] handle_off) = [Request ''/instances/i1'' Default] \<and>
   tasks (run [WaitForState ''on'', Tick 0, WaitForState ''off''] handle_off) = [Fetching] \<and>
   trace (run [WaitForState ''on'', Tick 0, WaitForState ''off''] handle_off)
     = [Request ''/instances/i1'' Default, Resolved 1]"
  by (simp add: evals)

text \<open>
  C10 (amended). Every call of \<^verbatim>\<open>_waitFor\<close> registers its listener before it
  evaluates the predicate, which runs \<^verbatim>\<open>manageUpdates\<close>. When the flag is clear,
  this queues a polling task, also when the predicate holds already, in which case the
  listener is removed again at once and the waiter is resolved; when the task begins it
  issues a fetch without consulting the number of listeners. When the flag is set, the
  call queues no task.
\<close>

theorem waitFor_schedules_poll:
  fixes s :: handle and cb :: "json \<Rightarrow> error + json option" and p :: purpose
  defines "w \<equiv> \<lparr>wid = nextWaiter s, callback = cb, purpose = p\<rparr>"
  defines "s1 \<equiv> snd (waitFor cb p s)"
  shows "(\<not> updating s \<longrightarrow>
            tasks s1 = tasks s @ [Scheduled] \<and>
            tasks (task_begin (length (tasks s)) s1) = tasks s @ [Fetching] \<and>
            trace (task_begin (length (tasks s)) s1)
              = trace s1 @ [Request (''/instances/'' @ template (ident s)) Default]) \<and>
         (updating s \<longrightarrow> tasks s1 = tasks s) \<and>
         (satisfied w (info s) \<longrightarrow>
            listeners s1 = listeners s \<and> trace s1 = trace s @ [Resolved (nextWaiter s)]) \<and>
         (\<not> satisfied w (info s) \<longrightarrow>
            listeners s1 = listeners s @ [Waiter w] \<and> trace s1 = trace s)"
proof -
  note t = waitFor_tasks [of cb p s, folded s1_def]
  have "tasks s1 = tasks s @ [Scheduled] \<and>
            tasks (task_begin (length (tasks s)) s1) = tasks s @ [Fetching] \<and>
            trace (task_begin (length (tasks s)) s1)
              = trace s1 @ [Request (''/instances/'' @ template (ident s)) Default]"
    if "\<not> updating s"
    using that t by (simp add: task_begin_def request_def nth_append)
  moreover have "tasks s1 = tasks s" if "updating s"
    using that t by simp
  moreover have "listeners s1 = listeners s \<and> trace s1 = trace s @ [Resolved (nextWaiter s)]"
    if "satisfied w (info s)"
    using that waitFor_listeners(1) [where cb = cb and p = p and s = s]
      waitFor_view(4) [where cb = cb and p = p and s = s]
    by (simp add: w_def s1_def)
  moreover have "listeners s1 = listeners s @ [Waiter w] \<and> trace s1 = trace s"
    if "\<not> satisfied w (info s)"
    using that waitFor_listeners(2) [where cb = cb and p = p and s = s]
      waitFor_view(7) [where cb = cb and p = p and s = s]
    by (simp add: w_def s1_def)
  ultimately show ?thesis by blast
qed

theorem waitFor_schedules_poll_witness:
  "\<not> updating handle_off \<and>
   satisfied \<lparr>wid = 0, callback = state_is ''off'', purpose = Plain\<rparr> (info handle_off) \<and>
   tasks (snd (waitForState ''off'' handle_off)) = [Scheduled] \<and>
   listeners (snd (waitForState ''off'' handle_off)) = [] \<and>
   trace (task_begin 0 (snd (waitForState ''off'' handle_off)))
     = [Resolved 0, Request ''/instances/i1'' Default]"
proof -
  have a: "\<not> updating handle_off" "nextWaiter handle_off = 0" "tasks handle_off = []"
    "listeners handle_off = []" "trace handle_off = []"
    "template (ident handle_off) = ''i1''"
    by (simp_all add: handle_off_def template_def)
  have b: "satisfied \<lparr>wid = 0, callback = state_is ''off'', purpose = Plain\<rparr> (info handle_off)"
    by (simp add: satisfied_def state_is_def handle_off_def snapshot_off_def)
  show ?thesis
    using waitFor_schedules_poll [of handle_off "state_is ''off''" Plain] a b
    by (simp add: waitForState_def)
qed

section \<open>Waiting\<close>

text \<open>
  C6. On a handle reached from its construction by any events, \<open>waitForState t\<close> is
  called. If the state of the cached snapshot is \<open>t\<close>, the call resolves at once: its
  only action is the resolution. Otherwise, whatever events follow, the waiter has been
  resolved exactly when one of them completed a refresh whose fetched snapshot has the
  state \<open>t\<close>: it resolves on the first such refresh and not before.
\<close>

theorem waitForState_resolves:
  fixes es0 :: "event list" and t :: string
  assumes "Instance a i = Inr s0"
  defines "s \<equiv> run es0 s0"
  defines "s1 \<equiv> step (WaitForState t) s"
  shows "(state s = Inr (Some (JStr t)) \<longrightarrow> trace s1 = trace s @ [Resolved (nextWaiter s)]) \<and>
         (state s \<noteq> Inr (Some (JStr t)) \<longrightarrow>
            Resolved (nextWaiter s) \<notin> set (trace s1) \<and>
            (Resolved (nextWaiter s) \<in> set (trace (run es s1)) \<longleftrightarrow> arrived t es s1))"
proof -
  let ?w = "\<lparr>wid = nextWaiter s, callback = state_is t, purpose = Plain\<rparr>"
  have c: "consistent s" unfolding s_def using Instance_consistent [OF assms(1)] by (rule run_consistent)
  have s1: "s1 = drain (snd (waitFor (state_is t) Plain s))"
    by (simp add: s1_def step_def waitForState_def)
  have sat: "satisfied ?w (info s) \<longleftrightarrow> state s = Inr (Some (JStr t))"
    by (simp add: satisfied_state_is has_state_def state_def)
  have "trace s1 = trace s @ [Resolved (nextWaiter s)]" if "state s = Inr (Some (JStr t))"
    unfolding s1 using c that sat by (intro step_waitFor_satisfied) simp_all
  moreover have "Resolved (nextWaiter s) \<notin> set (trace s1) \<and>
            (Resolved (nextWaiter s) \<in> set (trace (run es s1)) \<longleftrightarrow> arrived t es s1)"
    if "state s \<noteq> Inr (Some (JStr t))"
  proof -
    from that sat have u: "\<not> satisfied ?w (info s)" by simp
    note v = step_waitFor_unsatisfied [OF c u]
    have p: "?w \<in> set (pending s1)" unfolding s1 v(1) v(2) by simp
    have c1: "consistent s1" unfolding s1_def using c by (rule step_consistent)
    from c1 p have "Resolved (wid ?w) \<notin> set (trace s1)"
      unfolding consistent_def sound_iff by blast
    moreover have "Resolved (wid ?w) \<in> set (trace (run es s1)) \<longleftrightarrow> arrived t es s1"
      using c1 p by (rule resolved_iff_arrived) simp
    ultimately show ?thesis by simp
  qed
  ultimately show ?thesis by blast
qed

theorem waitForState_resolves_witness:
  "trace (step (WaitForState ''off'') handle_off) = [Resolved 0] \<and>
   Resolved 0 \<notin> set (trace (step (WaitForState ''on'') handle_off)) \<and>
   Resolved 0 \<notin> set (trace (run [Tick 0, Fetched 0 (Inr snapshot_off), Slept 0]
        (step (WaitForState ''on'') handle_off))) \<and>
   Resolved 0 \<in> set (trace (run [Tick 0, Fetched 0 (Inr snapshot_off), Slept 0,
        Fetched 0 (Inr snapshot_on)] (step (WaitForState ''on'') handle_off)))"
proof -
  have i: "Instance ''https://host/api'' snapshot_off = Inr handle_off"
    by (rule handle_off_constructed)
  have r: "run [] handle_off = handle_off" by (simp add: run_def)
  have st: "state handle_off = Inr (Some (JStr ''off''))"
    by (simp add: state_def handle_off_def snapshot_off_def)
  have t: "trace handle_off = []" "nextWaiter handle_off = 0" by (simp_all add: handle_off_def)
  let ?A = "step (WaitForState ''on'') handle_off"
  have a: "\<not> arrived ''on'' [Tick 0, Fetched 0 (Inr snapshot_off), Slept 0] ?A"
    by (simp add: evals arrives_def has_state_def snapshot_on_def quote_def escape_def)
  have b: "arrived ''on'' [Tick 0, Fetched 0 (Inr snapshot_off), Slept 0,
        Fetched 0 (Inr snapshot_on)] ?A"
    by (simp add: evals arrives_def has_state_def snapshot_on_def quote_def escape_def)
  show ?thesis
    using waitForState_resolves [OF i, where ?es0.0 = "[]" and t = "''off''" and es = "[]"]
      waitForState_resolves [OF i, where ?es0.0 = "[]" and t = "''on''"
        and es = "[Tick 0, Fetched 0 (Inr snapshot_off), Slept 0]"]
      waitForState_resolves [OF i, where ?es0.0 = "[]" and t = "''on''"
        and es = "[Tick 0, Fetched 0 (Inr snapshot_off), Slept 0, Fetched 0 (Inr snapshot_on)]"]
      a b
    unfolding r st t by simp
qed

text \<open>
  C7. On a handle reached from its construction by any events: a predicate that throws
  when \<^verbatim>\<open>_waitFor\<close> is called leaves the waiter registered and unresolved, and
  the call does nothing visible. A pending waiter whose predicate throws on the snapshot
  a refresh delivers stays registered and unresolved, and the refresh itself does not
  throw unless the snapshot is null. The waiter is then resolved by the next refresh
  whose snapshot satisfies its predicate.
\<close>

theorem throwing_predicate_keeps_waiting:
  fixes es0 :: "event list"
  assumes "Instance a i = Inr s0"
  defines "s \<equiv> run es0 s0"
  shows "(cb (info s) = Inl err \<longrightarrow>
            pending (step (WaitFor cb) s)
              = pending s @ [\<lparr>wid = nextWaiter s, callback = cb, purpose = Plain\<rparr>] \<and>
            trace (step (WaitFor cb) s) = trace s) \<and>
         (w \<in> set (pending s) \<and> completes e s = Some f \<and> callback w f = Inl err \<longrightarrow>
            w \<in> set (pending (step e s)) \<and>
            Resolved (wid w) \<notin> set (trace (step e s)) \<and>
            (f \<noteq> JNull \<longrightarrow> fst (update_resume (Inr f) s) = Inr ()) \<and>
            (completes e' (step e s) = Some f' \<and> satisfied w f' \<longrightarrow>
               Resolved (wid w) \<in> set (trace (step e' (step e s)))))"
proof -
  have c: "consistent s" unfolding s_def using Instance_consistent [OF assms(1)] by (rule run_consistent)
  have A: "pending (step (WaitFor cb) s)
              = pending s @ [\<lparr>wid = nextWaiter s, callback = cb, purpose = Plain\<rparr>] \<and>
            trace (step (WaitFor cb) s) = trace s" if "cb (info s) = Inl err"
  proof -
    from that have u: "\<not> satisfied \<lparr>wid = nextWaiter s, callback = cb, purpose = Plain\<rparr> (info s)"
      by (simp add: satisfied_def)
    note v = step_waitFor_unsatisfied [OF c u]
    show ?thesis by (simp add: step_def v)
  qed
  have B: "w \<in> set (pending (step e s)) \<and>
            Resolved (wid w) \<notin> set (trace (step e s)) \<and>
            (f \<noteq> JNull \<longrightarrow> fst (update_resume (Inr f) s) = Inr ()) \<and>
            (completes e' (step e s) = Some f' \<and> satisfied w f' \<longrightarrow>
               Resolved (wid w) \<in> set (trace (step e' (step e s))))"
    if "w \<in> set (pending s)" "completes e s = Some f" "callback w f = Inl err"
  proof -
    from that(3) have u: "\<not> satisfied w f" by (simp add: satisfied_def)
    with that(2) have "\<not> (\<exists>g. completes e s = Some g \<and> satisfied w g)" by simp
    with step_resolves [OF c that(1), of e]
    have p: "w \<in> set (pending (step e s))" and n: "Resolved (wid w) \<notin> set (trace (step e s))"
      by simp_all
    have c1: "consistent (step e s)" using c by (rule step_consistent)
    have "Resolved (wid w) \<in> set (trace (step e' (step e s)))"
      if "completes e' (step e s) = Some f'" "satisfied w f'"
      using step_resolves [OF c1 p, of e'] that by auto
    moreover have "fst (update_resume (Inr f) s) = Inr ()" if "f \<noteq> JNull"
    proof -
      from that have "\<exists>v. property (Some f) ''panicked'' = Inr v" by (cases f) simp_all
      then show ?thesis by (auto simp: update_resume_def Let_def)
    qed
    ultimately show ?thesis using p n by blast
  qed
  from A B show ?thesis by blast
qed

theorem throwing_predicate_keeps_waiting_witness:
  "vpn_ready (info handle_off) = Inl TypeError \<and>
   pending (step (WaitFor vpn_ready) handle_off)
     = [\<lparr>wid = 0, callback = vpn_ready, purpose = Plain\<rparr>] \<and>
   trace (step (WaitFor vpn_ready) handle_off) = [] \<and>
   vpn_ready snapshot_on = Inl TypeError \<and>
   Resolved 0 \<notin> set (trace (step (Refresh (Inr snapshot_on))
        (run [WaitFor vpn_ready] handle_off))) \<and>
   fst (update_resume (Inr snapshot_on) (run [WaitFor vpn_ready] handle_off)) = Inr () \<and>
   Resolved 0 \<in> set (trace (step (Refresh (Inr (snapshot_ready ''p1'')))
        (step (Refresh (Inr snapshot_on)) (run [WaitFor vpn_ready] handle_off))))"
proof -
  let ?w = "\<lparr>wid = 0, callback = vpn_ready, purpose = Plain\<rparr>"
  let ?A = "run [WaitFor vpn_ready] handle_off"
  have i: "Instance ''https://host/api'' snapshot_off = Inr handle_off"
    by (rule handle_off_constructed)
  have r: "run [] handle_off = handle_off" by (simp add: run_def)
  have t: "vpn_ready (info handle_off) = Inl TypeError" "vpn_ready snapshot_on = Inl TypeError"
    by (simp_all add: vpn_ready_def handle_off_def snapshot_off_def snapshot_on_def)
  have h: "pending handle_off = []" "trace handle_off = []" "nextWaiter handle_off = 0"
    by (simp_all add: handle_off_def pending_def)
  have p: "?w \<in> set (pending ?A)"
    by (simp add: evals pending_def)
  have c: "completes (Refresh (Inr snapshot_on)) ?A = Some snapshot_on"
    "completes (Refresh (Inr (snapshot_ready ''p1''))) (step (Refresh (Inr snapshot_on)) ?A)
       = Some (snapshot_ready ''p1'')"
    by simp_all
  have s: "satisfied ?w (snapshot_ready ''p1'')"
    by (simp add: satisfied_def vpn_ready_def snapshot_ready_def)
  have n: "snapshot_on \<noteq> JNull" by (simp add: snapshot_on_def)
  note a = throwing_predicate_keeps_waiting [OF i, where ?es0.0 = "[]" and cb = vpn_ready
      and err = TypeError, unfolded r h]
  note b = throwing_predicate_keeps_waiting [OF i, where ?es0.0 = "[WaitFor vpn_ready]"
      and w = ?w and e = "Refresh (Inr snapshot_on)" and f = snapshot_on and err = TypeError
      and e' = "Refresh (Inr (snapshot_ready ''p1''))" and f' = "snapshot_ready ''p1''"]
  from a t(1) have 1: "pending (step (WaitFor vpn_ready) handle_off) = [?w]"
    "trace (step (WaitFor vpn_ready) handle_off) = []" by simp_all
  from b p c t(2) s n have 2: "Resolved 0 \<notin> set (trace (step (Refresh (Inr snapshot_on)) ?A))"
    "fst (update_resume (Inr snapshot_on) ?A) = Inr ()"
    "Resolved 0 \<in> set (trace (step (Refresh (Inr (snapshot_ready ''p1'')))
        (step (Refresh (Inr snapshot_on)) ?A)))" by simp_all
  from t 1 2 show ?thesis by simp
qed

section \<open>Channels\<close>

text \<open>
  C4. A channel is requested twice in succession: the first request returns the
  channel \<open>c\<close>, and at the second request \<open>c\<close> is still the stored channel and reports
  itself active. If the derived endpoint is unchanged, the second request returns \<open>c\<close>
  itself and does nothing else; if the derived endpoint differs, the second request
  invokes the disconnect of \<open>c\<close> exactly once and then constructs the new channel it
  returns. This holds for the hypervisor channel and for the agent channel.
\<close>

theorem channel_requested_twice:
  assumes "active c"
  shows "(hypervisor_resume s = (Inr c, s1) \<and> hypervisorStream s2 = hypervisorStream s1 \<longrightarrow>
           (hypervisor_endpoint s2 = hypervisor_endpoint s \<longrightarrow> hypervisor_resume s2 = (Inr c, s2)) \<and>
           (hypervisor_endpoint s2 = Inr ep \<and> ep \<noteq> endpoint c \<longrightarrow>
              trace (snd (hypervisor_resume s2)) =
                trace s2 @ [Disconnect (cid c), Construct HypervisorStream (nextChannel s2) ep] \<and>
              map_sum id cid (fst (hypervisor_resume s2)) = Inr (nextChannel s2))) \<and>
         (agent_resume s = (Inr c, s1) \<and> agentStream s2 = agentStream s1 \<longrightarrow>
           (agent_endpoint s2 = agent_endpoint s \<longrightarrow> agent_resume s2 = (Inr c, s2)) \<and>
           (agent_endpoint s2 = Inr ep \<and> ep \<noteq> endpoint c \<longrightarrow>
              trace (snd (agent_resume s2)) =
                trace s2 @ [Disconnect (cid c), Construct Agent (nextChannel s2) ep] \<and>
              map_sum id cid (fst (agent_resume s2)) = Inr (nextChannel s2)))"
  using hypervisor_twice [OF assms, of s s1 s2 ep] agent_twice [OF assms, of s s1 s2 ep]
  by blast

theorem channel_requested_twice_witness:
  "hypervisor_resume (snd (hypervisor_resume handle_ready)) =
     (Inr \<lparr>cid = 0, endpoint = ''https://host/api/c3po/p1'', active = True\<rparr>,
      snd (hypervisor_resume handle_ready)) \<and>
   trace (snd (hypervisor_resume
       ((snd (hypervisor_resume handle_ready))\<lparr>info := snapshot_ready ''p2''\<rparr>))) =
     [Construct HypervisorStream 0 ''https://host/api/c3po/p1'', Disconnect 0,
      Construct HypervisorStream 1 ''https://host/api/c3po/p2''] \<and>
   trace (run [Hypervisor, Hypervisor] handle_ready) =
     [Resolved 0, Construct HypervisorStream 0 ''https://host/api/c3po/p1'', Returned 0 0,
      Resolved 1, Returned 1 0] \<and>
   trace (run [AgentCall, Refresh (Inr (snapshot_ready ''p2'')), AgentCall] handle_ready) =
     [Resolved 0, Construct Agent 0 ''https://host/api/agent/p1'', Returned 0 0,
      Request ''/instances/i1'' Default, Emit Change,
      Resolved 1, Disconnect 0, Construct Agent 1 ''https://host/api/agent/p2'', Returned 1 1]"
proof -
  let ?c = "\<lparr>cid = 0, endpoint = ''https://host/api/c3po/p1'', active = True\<rparr>"
  let ?A = "snd (hypervisor_resume handle_ready)"
  have a: "active ?c" by simp
  have b: "hypervisor_resume handle_ready = (Inr ?c, ?A)" by (simp add: evals)
  have c: "hypervisor_endpoint ?A = hypervisor_endpoint handle_ready"
    using hypervisor_resume_result [OF b] by simp
  have d: "hypervisor_endpoint (?A\<lparr>info := snapshot_ready ''p2''\<rparr>) = Inr ''https://host/api/c3po/p2''"
    by (simp add: evals)
  have e: "trace ?A = [Construct HypervisorStream 0 ''https://host/api/c3po/p1'']"
    "nextChannel ?A = 1" by (simp_all add: evals)
  have f: "trace (run [Hypervisor, Hypervisor] handle_ready) =
     [Resolved 0, Construct HypervisorStream 0 ''https://host/api/c3po/p1'', Returned 0 0,
      Resolved 1, Returned 1 0]"
    by (simp add: evals)
  have g: "trace (run [AgentCall, Refresh (Inr (snapshot_ready ''p2'')), AgentCall] handle_ready) =
     [Resolved 0, Construct Agent 0 ''https://host/api/agent/p1'', Returned 0 0,
      Request ''/instances/i1'' Default, Emit Change,
      Resolved 1, Disconnect 0, Construct Agent 1 ''https://host/api/agent/p2'', Returned 1 1]"
    by (simp add: evals quote_def escape_def)
  show ?thesis
    using channel_requested_twice [OF a, of handle_ready ?A ?A "''https://host/api/c3po/p2''"]
      channel_requested_twice [OF a, of handle_ready ?A "?A\<lparr>info := snapshot_ready ''p2''\<rparr>"
        "''https://host/api/c3po/p2''"] b c d e f g
    by simp
qed

text \<open>
  C2 (as stated) fails twice. A stored channel can turn inactive and stay stored: after
  the first request and the loss of liveness the field is non-null and inactive. And the
  next request replaces that inactive channel without invoking its disconnect.
\<close>

theorem inactive_channel_counterexample:
  "hypervisorStream (run [Hypervisor, Inactive HypervisorStream] handle_ready)
     = Some \<lparr>cid = 0, endpoint = ''https://host/api/c3po/p1'', active = False\<rparr> \<and>
   trace (run [Hypervisor, Inactive HypervisorStream, Hypervisor] handle_ready)
     = [Resolved 0, Construct HypervisorStream 0 ''https://host/api/c3po/p1'', Returned 0 0,
        Resolved 1, Construct HypervisorStream 1 ''https://host/api/c3po/p1'', Returned 1 1]"
  by (simp add: evals)

text \<open>
  C2 (amended). After a request the channel field holds the channel the request
  returned, whose endpoint is the derived endpoint. A stored channel that is active and
  has that endpoint is returned as it is. A stored channel that is active and has
  another endpoint has its disconnect invoked exactly once before the replacement is
  constructed and stored. A stored channel that is inactive is replaced without any
  disconnect, as is an empty field. This holds for both kinds of channel.
\<close>

theorem channel_replacement:
  "(hypervisor_endpoint s = Inr ep \<longrightarrow>
      (case hypervisorStream s of
         None \<Rightarrow> trace (snd (hypervisor_resume s))
                   = trace s @ [Construct HypervisorStream (nextChannel s) ep]
       | Some c \<Rightarrow>
           if active c then
             (if ep = endpoint c then hypervisor_resume s = (Inr c, s)
              else trace (snd (hypervisor_resume s))
                     = trace s @ [Disconnect (cid c), Construct HypervisorStream (nextChannel s) ep])
           else trace (snd (hypervisor_resume s))
                  = trace s @ [Construct HypervisorStream (nextChannel s) ep]) \<and>
      (\<exists>c'. fst (hypervisor_resume s) = Inr c' \<and> endpoint c' = ep \<and>
            hypervisorStream (snd (hypervisor_resume s)) = Some c')) \<and>
   (agent_endpoint s = Inr ep' \<longrightarrow>
      (case agentStream s of
         None \<Rightarrow> trace (snd (agent_resume s)) = trace s @ [Construct Agent (nextChannel s) ep']
       | Some c \<Rightarrow>
           if active c then
             (if ep' = endpoint c then agent_resume s = (Inr c, s)
              else trace (snd (agent_resume s))
                     = trace s @ [Disconnect (cid c), Construct Agent (nextChannel s) ep'])
           else trace (snd (agent_resume s)) = trace s @ [Construct Agent (nextChannel s) ep']) \<and>
      (\<exists>c'. fst (agent_resume s) = Inr c' \<and> endpoint c' = ep' \<and>
            agentStream (snd (agent_resume s)) = Some c'))"
  using hypervisor_resume_cases [of s ep] agent_resume_cases [of s ep'] by blast

theorem channel_replacement_witness:
  "trace (snd (hypervisor_resume
       (handle_ready\<lparr>hypervisorStream := Some \<lparr>cid = 7, endpoint = ''https://host/api/c3po/p0'',
                                                active = True\<rparr>\<rparr>)))
     = [Disconnect 7, Construct HypervisorStream 0 ''https://host/api/c3po/p1''] \<and>
   trace (snd (agent_resume
       (handle_ready\<lparr>agentStream := Some \<lparr>cid = 7, endpoint = ''https://host/api/agent/p0'',
                                           active = False\<rparr>\<rparr>)))
     = [Construct Agent 0 ''https://host/api/agent/p1'']"
proof -
  let ?h = "handle_ready\<lparr>hypervisorStream := Some \<lparr>cid = 7, endpoint = ''https://host/api/c3po/p0'',
                                                active = True\<rparr>\<rparr>"
  let ?a = "handle_ready\<lparr>agentStream := Some \<lparr>cid = 7, endpoint = ''https://host/api/agent/p0'',
                                           active = False\<rparr>\<rparr>"
  have h: "hypervisor_endpoint ?h = Inr ''https://host/api/c3po/p1''"
    and a: "agent_endpoint ?a = Inr ''https://host/api/agent/p1''"
    by (simp_all add: hypervisor_endpoint_def agent_endpoint_def template_def handle_ready_def
        handle_off_def snapshot_ready_def)
  have t: "trace ?h = []" "trace ?a = []" "nextChannel ?h = 0" "nextChannel ?a = 0"
    by (simp_all add: handle_ready_def handle_off_def)
  show ?thesis
    using channel_replacement [of ?h "''https://host/api/c3po/p1''" "''x''"]
      channel_replacement [of ?a "''x''" "''https://host/api/agent/p1''"] h a t
    by simp
qed

section \<open>Commands\<close>

text \<open>
  C9. Every command (start, stop, reboot, rename, destroy, and pause and unpause as the
  specification describes them) is a remote call that leaves the cached snapshot as it
  was, whatever the outcome of the call; so the getters \<open>name\<close>, \<open>state\<close> and
  \<open>flavor\<close> report after the command what they reported before it.
\<close>

theorem commands_leave_snapshot:
  "list_all (\<lambda>s'. info s' = info s \<and> name s' = name s \<and> state s' = state s
                   \<and> flavor s' = flavor s)
     [snd (start r s), snd (stop r s), snd (reboot r s), snd (rename n r s),
      snd (destroy r s), snd (pause r s), snd (unpause r s)]"
  by (simp add: start_def stop_def reboot_def rename_def destroy_def pause_def unpause_def
      command_info name_def state_def flavor_def)

theorem commands_leave_snapshot_witness:
  "state handle_off = Inr (Some (JStr ''off'')) \<and>
   state (snd (start (Inr JNull) handle_off)) = Inr (Some (JStr ''off''))"
  using commands_leave_snapshot [of handle_off "Inr JNull" JNull]
  by (simp add: state_def handle_off_def snapshot_off_def)

end
